theory Spec2Isabelle
  imports Main "HOL-Library.Word" "HOL-Library.Char_ord" "HOL-Library.List_Lexorder"
begin

section \<open>The OSS storage adapter of rocks-strata (strata/ossstorage/storage.go)\<close>

text \<open>
  The adapter talks to the object store through the SDK's bucket handle. The SDK and the
  service behind it are not part of the adapter: the bucket handle is a record of
  functions over a provider state \<open>'p\<close>, one per SDK method the adapter calls, and every
  theorem below holds for whatever these functions answer unless it says otherwise.
  Every SDK call the adapter makes is appended to a log, so that "which request was
  sent" is a property of the model.

  The repository holds the adapter twice, once per SDK (aliyungo and oss-aliyun-go). The
  two copies have the same control flow; they differ in the arguments of the constructor
  that only reach the SDK client, and in the name of the read call (\<open>GetResponse\<close>
  in one, \<open>Head\<close> in the other). The model follows strata/ossstorage/storage.go.

  Go strings are byte strings and \<open>len\<close> counts bytes: \<open>string\<close> (a list of \<open>char\<close>,
  one per byte). Go's \<open>int\<close> is modelled as \<open>int\<close>; the only arithmetic on it is
  \<open>maxSize - maxReqSize\<close> with \<open>0 < maxReqSize \<le> maxSize\<close>, which cannot overflow.
\<close>

subsection \<open>Errors, panics, results\<close>

type_synonym byte = "8 word"

text \<open>
  An error value that comes from outside the adapter (the SDK, the network, an
  \<open>io.Reader\<close>): \<open>Error\<close> is the text its \<open>Error()\<close> method returns, \<open>err_kind\<close>
  stands for everything else that tells two error values apart.
\<close>

datatype ext_error = ExtError (err_kind: string) (Error: string)

text \<open>
  The error values the adapter can return: an outside error passed through, the typed
  \<open>strata.ErrNotFound(path)\<close>, an \<open>errors.New(text)\<close>, and the two errors of
  \<open>encoding/hex\<close>.
\<close>

datatype error =
    External ext_error
  | ErrNotFound string
  | ErrorsNew string
  | InvalidByteError char
  | ErrLength

datatype panic = NilDereference | IndexOutOfRange | SliceBoundsOutOfRange

text \<open>A Go call returning \<open>(value, error)\<close>, or not returning because it panicked.\<close>

datatype 'a outcome = Ok 'a | Err error | Panic panic

subsection \<open>The SDK as the adapter sees it\<close>

text \<open>\<open>oss.ACL\<close> is a string type; \<open>oss.Private\<close> is its constant \<open>"private"\<close>.\<close>

datatype ACL = ACL string

definition Private :: ACL where
  "Private = ACL ''private''"

text \<open>An entry of a listing page; of \<open>oss.Key\<close> the adapter reads the field \<open>Key\<close> only.\<close>

record ListEntry =
  Key :: string

record ListResp =
  Contents :: "ListEntry list"
  IsTruncated :: bool

text \<open>
  An \<open>io.Reader\<close>: the chunks it delivers, then end of data (\<open>None\<close>) or an error.
\<close>

datatype reader = Reader (chunks: "byte list list") (final: "ext_error option")

text \<open>\<open>http.Response\<close>: the header map (\<open>map[string][]string\<close>) and the body.\<close>

record Response =
  Header :: "string \<rightharpoonup> string list"
  Body :: reader

text \<open>
  The methods of \<open>*oss.Bucket\<close> the adapter calls. A Go method returning
  \<open>(pointer, error)\<close> can return nil for either, so both are options.
\<close>

record 'p Bucket =
  bucket_List :: "string \<Rightarrow> string \<Rightarrow> string \<Rightarrow> int \<Rightarrow> 'p
                    \<Rightarrow> (ListResp option \<times> ext_error option) \<times> 'p"
  bucket_PutBucket :: "ACL \<Rightarrow> 'p \<Rightarrow> ext_error option \<times> 'p"
  bucket_GetResponse :: "string \<Rightarrow> 'p \<Rightarrow> (Response option \<times> ext_error option) \<times> 'p"
  bucket_Put :: "string \<Rightarrow> byte list \<Rightarrow> string \<Rightarrow> ACL \<Rightarrow> 'p \<Rightarrow> ext_error option \<times> 'p"
  bucket_Del :: "string \<Rightarrow> 'p \<Rightarrow> ext_error option \<times> 'p"

text \<open>\<open>*oss.Client\<close>: the adapter only asks it for a bucket handle by name.\<close>

record 'p Client =
  client_Bucket :: "string \<Rightarrow> 'p Bucket"

text \<open>The requests sent to the provider, in the order they were sent.\<close>

datatype call =
    CallList string string string int
  | CallPutBucket ACL
  | CallGetResponse string
  | CallPut string "byte list" string ACL
  | CallDel string

record 'p world =
  pstate :: 'p
  calls :: "call list"

definition sent :: "call \<Rightarrow> 'p \<Rightarrow> 'p world \<Rightarrow> 'p world" where
  "sent c p' w = \<lparr>pstate = p', calls = calls w @ [c]\<rparr>"

subsection \<open>The adapter\<close>

record 'p OSSStorage =
  oss :: "'p Client"
  bucket :: "'p Bucket"
  region :: string
  prefix :: string

definition addPrefix :: "'p OSSStorage \<Rightarrow> string \<Rightarrow> string" where
  "addPrefix s path = prefix s @ ''/'' @ path"

text \<open>
  \<open>path[len(s.prefix)+1:]\<close>: a slice expression panics when its low bound exceeds
  the length of the string.
\<close>

definition removePrefix :: "'p OSSStorage \<Rightarrow> string \<Rightarrow> panic + string" where
  "removePrefix s path =
     (if length (prefix s) + 1 \<le> length path
      then Inr (drop (length (prefix s) + 1) path)
      else Inl SliceBoundsOutOfRange)"

text \<open>
  \<open>NewOSSStorage\<close>. \<open>NewOSSClient\<close> is the SDK's constructor \<open>oss.NewOSSClient\<close>;
  the parameter \<open>internal\<close> is not used by the source (it passes \<open>false\<close>).
\<close>

definition NewOSSStorage ::
  "(string \<Rightarrow> bool \<Rightarrow> string \<Rightarrow> string \<Rightarrow> bool \<Rightarrow> 'p Client)
   \<Rightarrow> string \<Rightarrow> string \<Rightarrow> string \<Rightarrow> bool \<Rightarrow> string \<Rightarrow> string \<Rightarrow> bool \<Rightarrow> ACL
   \<Rightarrow> 'p world \<Rightarrow> (error + 'p OSSStorage) \<times> 'p world" where
  "NewOSSStorage NewOSSClient bucketName prefix' region' internal accessKeyID accessKeySecret
       secure bucketACL w =
     (let ossclient = NewOSSClient region' False accessKeyID accessKeySecret secure;
          bucket' = client_Bucket ossclient bucketName;
          ((_, err), p1) = bucket_List bucket' '''' ''/'' '''' 1 (pstate w);
          w1 = sent (CallList '''' ''/'' '''' 1) p1 w;
          storage = \<lparr>oss = ossclient, bucket = bucket', region = region', prefix = prefix'\<rparr>
      in case err of
           None \<Rightarrow> (Inr storage, w1)
         | Some _ \<Rightarrow>
             (let (err', p2) = bucket_PutBucket bucket' bucketACL p1;
                  w2 = sent (CallPutBucket bucketACL) p2 w1
              in case err' of
                   Some e \<Rightarrow> (Inl (External e), w2)
                 | None \<Rightarrow> (Inr storage, w2)))"

subsection \<open>Get: the digest header\<close>

text \<open>\<open>strings.TrimPrefix\<close> and \<open>strings.TrimSuffix\<close>.\<close>

definition HasPrefix :: "string \<Rightarrow> string \<Rightarrow> bool" where
  "HasPrefix s p = (length p \<le> length s \<and> take (length p) s = p)"

definition HasSuffix :: "string \<Rightarrow> string \<Rightarrow> bool" where
  "HasSuffix s p = (length p \<le> length s \<and> drop (length s - length p) s = p)"

definition TrimPrefix :: "string \<Rightarrow> string \<Rightarrow> string" where
  "TrimPrefix s p = (if HasPrefix s p then drop (length p) s else s)"

definition TrimSuffix :: "string \<Rightarrow> string \<Rightarrow> string" where
  "TrimSuffix s p = (if HasSuffix s p then take (length s - length p) s else s)"

text \<open>
  \<open>hex.DecodeString\<close> of the Go standard library: pairs of hexadecimal digits, either
  case, the first invalid byte reported before a bad length.
\<close>

definition fromHexChar :: "char \<Rightarrow> byte option" where
  "fromHexChar c =
     (if CHR ''0'' \<le> c \<and> c \<le> CHR ''9'' then Some (of_nat (of_char c - of_char CHR ''0''))
      else if CHR ''a'' \<le> c \<and> c \<le> CHR ''f''
        then Some (of_nat (of_char c - of_char CHR ''a'' + 10))
      else if CHR ''A'' \<le> c \<and> c \<le> CHR ''F''
        then Some (of_nat (of_char c - of_char CHR ''A'' + 10))
      else None)"

fun hex_DecodeString :: "string \<Rightarrow> error + byte list" where
  "hex_DecodeString [] = Inr []"
| "hex_DecodeString [p] =
     (case fromHexChar p of None \<Rightarrow> Inl (InvalidByteError p) | Some _ \<Rightarrow> Inl ErrLength)"
| "hex_DecodeString (p # q # rest) =
     (case fromHexChar p of
        None \<Rightarrow> Inl (InvalidByteError p)
      | Some a \<Rightarrow>
          (case fromHexChar q of
             None \<Rightarrow> Inl (InvalidByteError q)
           | Some b \<Rightarrow>
               (case hex_DecodeString rest of
                  Inl e \<Rightarrow> Inl e
                | Inr bs \<Rightarrow> Inr (or (push_bit 4 a) b # bs))))"

text \<open>The stream \<open>strata.NewChecksummingReader(body, checksum)\<close> hands to the caller.\<close>

datatype ChecksummingReader = NewChecksummingReader reader "byte list"

definition quote :: string where
  "quote = [CHR 0x22]"

definition Get :: "'p OSSStorage \<Rightarrow> string \<Rightarrow> 'p world \<Rightarrow> ChecksummingReader outcome \<times> 'p world" where
  "Get s path w =
     (let path' = addPrefix s path;
          ((resp, err), p') = bucket_GetResponse (bucket s) path' (pstate w);
          w' = sent (CallGetResponse path') p' w
      in case err of
           Some e \<Rightarrow>
             (if Error e = ''The specified key does not exist.''
              then (Err (ErrNotFound path'), w')
              else (Err (External e), w'))
         | None \<Rightarrow>
             (case resp of
                None \<Rightarrow> (Panic NilDereference, w')
              | Some r \<Rightarrow>
                  (case Header r ''Etag'' of
                     None \<Rightarrow> (Err (ErrorsNew ''No Etag header''), w')
                   | Some etag \<Rightarrow>
                       if length etag = 0 then (Err (ErrorsNew ''Etag header is empty''), w')
                       else
                         (case hex_DecodeString
                                 (TrimSuffix (TrimPrefix (etag ! 0) quote) quote) of
                            Inl e \<Rightarrow> (Err e, w')
                          | Inr checksum \<Rightarrow>
                              (Ok (NewChecksummingReader (Body r) checksum), w')))))"

subsection \<open>Put, PutReader, Delete\<close>

definition Put :: "'p OSSStorage \<Rightarrow> string \<Rightarrow> byte list \<Rightarrow> 'p world \<Rightarrow> error option \<times> 'p world" where
  "Put s path data w =
     (let path' = addPrefix s path;
          (err, p') = bucket_Put (bucket s) path' data ''application/octet-stream'' Private
                        (pstate w)
      in (map_option External err,
          sent (CallPut path' data ''application/octet-stream'' Private) p' w))"

text \<open>\<open>ioutil.ReadAll\<close>: everything the reader delivers, and its error if it ended in one.\<close>

definition ioutil_ReadAll :: "reader \<Rightarrow> byte list \<times> ext_error option" where
  "ioutil_ReadAll r = (concat (chunks r), final r)"

definition PutReader :: "'p OSSStorage \<Rightarrow> string \<Rightarrow> reader \<Rightarrow> 'p world \<Rightarrow> error option \<times> 'p world" where
  "PutReader s path rd w =
     (let (data, err) = ioutil_ReadAll rd
      in case err of
           Some e \<Rightarrow> (Some (External e), w)
         | None \<Rightarrow> Put s path data w)"

definition Delete :: "'p OSSStorage \<Rightarrow> string \<Rightarrow> 'p world \<Rightarrow> error option \<times> 'p world" where
  "Delete s path w =
     (let path' = addPrefix s path;
          (err, p') = bucket_Del (bucket s) path' (pstate w)
      in (map_option External err, sent (CallDel path') p' w))"

subsection \<open>List\<close>

text \<open>The variables of the loop in \<open>List\<close>.\<close>

record list_state =
  maxSize :: int
  marker :: string
  items :: "string list"

text \<open>
  \<open>for _, key := range contents.Contents { items = append(items, s.removePrefix(key.Key)) }\<close>
\<close>

fun append_keys :: "'p OSSStorage \<Rightarrow> string list \<Rightarrow> ListEntry list \<Rightarrow> panic + string list" where
  "append_keys s acc [] = Inr acc"
| "append_keys s acc (key # rest) =
     (case removePrefix s (Key key) of
        Inl pn \<Rightarrow> Inl pn
      | Inr path \<Rightarrow> append_keys s (acc @ [path]) rest)"

text \<open>How one pass through the loop body ends.\<close>

datatype ctl = Continue list_state | Break list_state | ReturnErr error | Crash panic

definition List_body ::
  "'p OSSStorage \<Rightarrow> string \<Rightarrow> string \<Rightarrow> list_state \<Rightarrow> 'p world \<Rightarrow> ctl \<times> 'p world" where
  "List_body s prefix' pathSeparator st w =
     (let maxReqSize = (if maxSize st < 1000 then maxSize st else 1000);
          ((contents, err), p') =
             bucket_List (bucket s) prefix' pathSeparator (marker st) maxReqSize (pstate w);
          w' = sent (CallList prefix' pathSeparator (marker st) maxReqSize) p' w
      in case err of
           Some e \<Rightarrow> (ReturnErr (External e), w')
         | None \<Rightarrow>
             (case contents of
                None \<Rightarrow> (Crash NilDereference, w')
              | Some c \<Rightarrow>
                  (case append_keys s (items st) (Contents c) of
                     Inl pn \<Rightarrow> (Crash pn, w')
                   | Inr items' \<Rightarrow>
                       if IsTruncated c then
                         (if items' = [] then (Crash IndexOutOfRange, w')
                          else (Continue \<lparr>maxSize = maxSize st - maxReqSize,
                                          marker = addPrefix s (last items'),
                                          items = items'\<rparr>, w'))
                       else (Break \<lparr>maxSize = maxSize st - maxReqSize,
                                    marker = marker st,
                                    items = items'\<rparr>, w'))))"

function List_loop ::
  "'p OSSStorage \<Rightarrow> string \<Rightarrow> string \<Rightarrow> list_state \<Rightarrow> 'p world \<Rightarrow> string list outcome \<times> 'p world" where
  "List_loop s prefix' pathSeparator st w =
     (if maxSize st > 0 then
        (case List_body s prefix' pathSeparator st w of
           (Continue st', w') \<Rightarrow> List_loop s prefix' pathSeparator st' w'
         | (Break st', w') \<Rightarrow> (Ok (items st'), w')
         | (ReturnErr e, w') \<Rightarrow> (Err e, w')
         | (Crash pn, w') \<Rightarrow> (Panic pn, w'))
      else (Ok (items st), w))"
  by pat_completeness auto
termination
  by (relation "measure (\<lambda>(s, prefix', pathSeparator, st, w). nat (maxSize st))")
     (auto simp: List_body_def Let_def split: prod.splits option.splits sum.splits if_splits)

declare List_loop.simps [simp del]

definition List :: "'p OSSStorage \<Rightarrow> string \<Rightarrow> int \<Rightarrow> 'p world \<Rightarrow> string list outcome \<times> 'p world" where
  "List s prefix' maxSize' w =
     List_loop s (addPrefix s prefix') '''' \<lparr>maxSize = maxSize', marker = '''', items = []\<rparr> w"

definition Lock :: "'p OSSStorage \<Rightarrow> string \<Rightarrow> error option" where
  "Lock s path = None"

definition Unlock :: "'p OSSStorage \<Rightarrow> string \<Rightarrow> error option" where
  "Unlock s path = None"

subsection \<open>Specification-level notions\<close>

text \<open>
  A listing service with a page ceiling: the keys are kept in ascending byte order; a
  request answers with the keys that start with the prefix and come after the marker (an
  empty marker means from the start), at most \<open>max-keys\<close> of them and never more than
  the ceiling, and sets the truncation flag when more remain. The delimiter is not
  interpreted (the adapter lists with an empty one). The provider state is the list of
  keys. With a ceiling of 1000 or more every page the adapter asks for is filled up to
  the requested size; with a smaller ceiling a truncated page can be shorter than
  requested.
\<close>

definition paged_List ::
  "nat \<Rightarrow> string \<Rightarrow> string \<Rightarrow> string \<Rightarrow> int \<Rightarrow> string list
   \<Rightarrow> (ListResp option \<times> ext_error option) \<times> string list" where
  "paged_List ceiling prefix' delim marker' maxkeys ks =
     (let matching = filter (\<lambda>k. HasPrefix k prefix' \<and> (marker' = [] \<or> marker' < k)) ks;
          n = min (nat maxkeys) ceiling
      in ((Some \<lparr>Contents = map (\<lambda>k. \<lparr>Key = k\<rparr>) (take n matching),
                 IsTruncated = (n < length matching)\<rparr>, None), ks))"

text \<open>The objects that exist under a prefix, in provider order.\<close>

definition objects_under :: "string \<Rightarrow> string list \<Rightarrow> string list" where
  "objects_under prefix' ks = filter (\<lambda>k. HasPrefix k prefix') ks"

text \<open>
  The answers the provider gives to the list requests of one run of the loop, in order:
  each is the answer to the request the loop body sends in the state it has reached.
\<close>

function List_answers ::
  "'p OSSStorage \<Rightarrow> string \<Rightarrow> string \<Rightarrow> list_state \<Rightarrow> 'p world
   \<Rightarrow> (ListResp option \<times> ext_error option) list" where
  "List_answers s prefix' pathSeparator st w =
     (if maxSize st > 0 then
        fst (bucket_List (bucket s) prefix' pathSeparator (marker st)
               (if maxSize st < 1000 then maxSize st else 1000) (pstate w))
        # (case List_body s prefix' pathSeparator st w of
             (Continue st', w') \<Rightarrow> List_answers s prefix' pathSeparator st' w'
           | (Break st', w') \<Rightarrow> []
           | (ReturnErr e, w') \<Rightarrow> []
           | (Crash pn, w') \<Rightarrow> [])
      else [])"
  by pat_completeness auto
termination
  by (relation "measure (\<lambda>(s, prefix', pathSeparator, st, w). nat (maxSize st))")
     (auto simp: List_body_def Let_def split: prod.splits option.splits sum.splits if_splits)

declare List_answers.simps [simp del]

text \<open>The keys of an answered page with the first \<open>len(prefix)+1\<close> characters removed.\<close>

definition page_paths :: "'p OSSStorage \<Rightarrow> ListResp option \<times> ext_error option \<Rightarrow> string list" where
  "page_paths s a =
     (case fst a of
        None \<Rightarrow> []
      | Some pg \<Rightarrow> map (\<lambda>k. drop (length (prefix s) + 1) (Key k)) (Contents pg))"

text \<open>A header value with one leading and one trailing quote character removed.\<close>

definition unquoted :: "string \<Rightarrow> string" where
  "unquoted v =
     (let v1 = (case v of [] \<Rightarrow> [] | c # t \<Rightarrow> if c = CHR 0x22 then t else v)
      in if v1 \<noteq> [] \<and> last v1 = CHR 0x22 then butlast v1 else v1)"

text \<open>Valid hexadecimal: an even number of characters, each a hexadecimal digit.\<close>

definition hex_digit :: "char \<Rightarrow> bool" where
  "hex_digit c = (c \<in> set ''0123456789abcdefABCDEF'')"

definition valid_hex :: "string \<Rightarrow> bool" where
  "valid_hex x = (even (length x) \<and> list_all hex_digit x)"

text \<open>
  \<open>putFromStream\<close> in the specification's words: materialise the reader, then \<open>put\<close>;
  a read error is returned and nothing is written.
\<close>

definition putFromStream_spec ::
  "'p OSSStorage \<Rightarrow> string \<Rightarrow> reader \<Rightarrow> 'p world \<Rightarrow> error option \<times> 'p world" where
  "putFromStream_spec s path rd w =
     (case final rd of
        None \<Rightarrow> Put s path (concat (chunks rd)) w
      | Some e \<Rightarrow> (Some (External e), w))"

subsection \<open>Concrete providers and adapters\<close>

text \<open>A provider that gives the same answer to every request of a kind.\<close>

definition const_Bucket ::
  "(ListResp option \<times> ext_error option) \<Rightarrow> ext_error option
   \<Rightarrow> (Response option \<times> ext_error option) \<Rightarrow> ext_error option \<Rightarrow> ext_error option
   \<Rightarrow> 'p Bucket" where
  "const_Bucket l c g p d =
     \<lparr>bucket_List = (\<lambda>_ _ _ _ u. (l, u)),
      bucket_PutBucket = (\<lambda>_ u. (c, u)),
      bucket_GetResponse = (\<lambda>_ u. (g, u)),
      bucket_Put = (\<lambda>_ _ _ _ u. (p, u)),
      bucket_Del = (\<lambda>_ u. (d, u))\<rparr>"

definition const_Client :: "'p Bucket \<Rightarrow> string \<Rightarrow> bool \<Rightarrow> string \<Rightarrow> string \<Rightarrow> bool \<Rightarrow> 'p Client" where
  "const_Client b r i k x t = \<lparr>client_Bucket = (\<lambda>_. b)\<rparr>"

definition storage_on :: "'p Bucket \<Rightarrow> string \<Rightarrow> 'p OSSStorage" where
  "storage_on b pfx =
     \<lparr>oss = \<lparr>client_Bucket = (\<lambda>_. b)\<rparr>, bucket = b, region = ''oss-cn-hangzhou'', prefix = pfx\<rparr>"

definition no_such_key :: ext_error where
  "no_such_key = ExtError ''NoSuchKey'' ''The specified key does not exist.''"

definition access_denied :: ext_error where
  "access_denied = ExtError ''AccessDenied'' ''Access denied.''"

text \<open>A store that lists from its keys and answers every other request with success.\<close>

definition listing_Bucket :: "nat \<Rightarrow> string list Bucket" where
  "listing_Bucket ceiling =
     \<lparr>bucket_List = paged_List ceiling,
      bucket_PutBucket = (\<lambda>_ u. (None, u)),
      bucket_GetResponse = (\<lambda>_ u. ((None, Some no_such_key), u)),
      bucket_Put = (\<lambda>_ _ _ _ u. (None, u)),
      bucket_Del = (\<lambda>_ u. (None, u))\<rparr>"

definition demo_keys :: "string list" where
  "demo_keys = [''backups/db1/a'', ''backups/db1/b'', ''backups/db2/c'', ''other/x'']"

definition three_keys :: "string list" where
  "three_keys = [''backups/a'', ''backups/b'', ''backups/c'']"

text \<open>The keys \<open>backups/k\<close>, \<open>backups/kk\<close>, \<open>backups/kkk\<close>, ... in ascending order.\<close>

definition many_keys :: "nat \<Rightarrow> string list" where
  "many_keys n = map (\<lambda>i. ''backups/'' @ replicate (Suc i) CHR ''k'') [0..<n]"

text \<open>
  A store of objects by key: a read of a key it holds answers with the object's
  response, a read of an absent key answers with the given error, a delete removes the
  key. The provider state is the map from keys to responses.
\<close>

definition store_Bucket :: "ext_error \<Rightarrow> (string \<rightharpoonup> Response) Bucket" where
  "store_Bucket absent =
     \<lparr>bucket_List = (\<lambda>_ _ _ _ objs. ((Some \<lparr>Contents = [], IsTruncated = False\<rparr>, None), objs)),
      bucket_PutBucket = (\<lambda>_ objs. (None, objs)),
      bucket_GetResponse =
        (\<lambda>key objs. case objs key of
                       None \<Rightarrow> ((None, Some absent), objs)
                     | Some r \<Rightarrow> ((Some r, None), objs)),
      bucket_Put = (\<lambda>_ _ _ _ objs. (None, objs)),
      bucket_Del = (\<lambda>key objs. (None, objs(key := None)))\<rparr>"

text \<open>An absent key reported with a text that wraps the provider's message.\<close>

definition wrapped_no_such_key :: ext_error where
  "wrapped_no_such_key =
     ExtError ''NoSuchKey''
       ''Aliyun API Error: Status Code: 404 Code: NoSuchKey Message: The specified key does not exist.''"

definition denying_Bucket :: "unit Bucket" where
  "denying_Bucket =
     const_Bucket (None, Some access_denied) (Some access_denied)
       (None, Some access_denied) (Some access_denied) (Some access_denied)"

definition missing_Bucket :: "unit Bucket" where
  "missing_Bucket =
     const_Bucket (None, Some no_such_key) None
       (None, Some no_such_key) None (Some no_such_key)"

definition etag_Response :: "string \<Rightarrow> Response" where
  "etag_Response v = \<lparr>Header = [''Etag'' \<mapsto> [v]], Body = Reader [[1, 2], [3]] None\<rparr>"

definition serving_Bucket :: "string \<Rightarrow> unit Bucket" where
  "serving_Bucket v =
     const_Bucket (Some \<lparr>Contents = [\<lparr>Key = ''backups/a''\<rparr>], IsTruncated = True\<rparr>, None) None
       (Some (etag_Response v), None) None None"

definition stalling_Bucket :: "unit Bucket" where
  "stalling_Bucket =
     const_Bucket (Some \<lparr>Contents = [], IsTruncated = True\<rparr>, None) None
       (None, Some no_such_key) None None"

definition demo_etag :: string where
  "demo_etag = quote @ ''0aFf'' @ quote"

definition fresh :: "unit world" where
  "fresh = \<lparr>pstate = (), calls = []\<rparr>"

definition empty_store :: "(string \<rightharpoonup> Response) world" where
  "empty_store = \<lparr>pstate = Map.empty, calls = []\<rparr>"

section \<open>Auxiliary facts\<close>

subsection \<open>Hexadecimal decoding and quote trimming\<close>

lemma fromHexChar_None_iff: "fromHexChar c = None \<longleftrightarrow> \<not> hex_digit c"
proof -
  obtain n :: nat where n: "n = of_char c" by simp
  have eq: "\<And>d. (c = d) = (n = of_char d)" by (simp add: n)
  have le: "\<And>d. (c \<le> d) = (n \<le> of_char d)" "\<And>d. (d \<le> c) = (of_char d \<le> n)"
    by (simp_all add: n less_eq_char_def)
  show ?thesis
    unfolding fromHexChar_def hex_digit_def
    apply (simp only: le eq list.set insert_iff empty_iff)
    apply simp
    apply arith
    done
qed

lemma hex_DecodeString_ok_iff: "(\<exists>bs. hex_DecodeString x = Inr bs) \<longleftrightarrow> valid_hex x"
proof (induction x rule: hex_DecodeString.induct)
  case 1
  then show ?case by (simp add: valid_hex_def)
next
  case (2 p)
  then show ?case by (simp add: valid_hex_def split: option.splits)
next
  case (3 p q rest)
  have vh: "valid_hex (p # q # rest) \<longleftrightarrow>
      fromHexChar p \<noteq> None \<and> fromHexChar q \<noteq> None \<and> valid_hex rest"
    unfolding fromHexChar_None_iff by (auto simp: valid_hex_def)
  show ?case
  proof (cases "fromHexChar p")
    case None
    then show ?thesis using vh by simp
  next
    case (Some a)
    note a = this
    show ?thesis
    proof (cases "fromHexChar q")
      case None
      then show ?thesis using vh a by simp
    next
      case (Some b)
      then show ?thesis using vh a "3.IH"[OF a Some] by (auto split: sum.splits)
    qed
  qed
qed

lemma hex_DecodeString_errors:
  "hex_DecodeString v = Inl x \<Longrightarrow> x = ErrLength \<or> (\<exists>c. x = InvalidByteError c)"
  by (induction v rule: hex_DecodeString.induct) (auto split: option.splits sum.splits)

lemma drop_last_eq: "1 \<le> length s \<Longrightarrow> (drop (length s - 1) s = [c]) = (last s = c)"
  by (cases s rule: rev_cases) auto

lemma Trim_unquoted: "TrimSuffix (TrimPrefix v quote) quote = unquoted v"
proof -
  have suf: "TrimSuffix t quote = (if t \<noteq> [] \<and> last t = CHR 0x22 then butlast t else t)"
    for t :: string
  proof (cases "t = []")
    case True
    then show ?thesis by (simp add: TrimSuffix_def HasSuffix_def quote_def)
  next
    case False
    then have "1 \<le> length t" by (cases t) auto
    then show ?thesis using False drop_last_eq[of t "CHR 0x22"]
      by (simp add: TrimSuffix_def HasSuffix_def quote_def butlast_conv_take)
  qed
  have pre: "TrimPrefix v quote = (case v of [] \<Rightarrow> [] | c # t \<Rightarrow> if c = CHR 0x22 then t else v)"
    by (cases v) (auto simp: TrimPrefix_def HasPrefix_def quote_def)
  show ?thesis unfolding suf pre unquoted_def Let_def by simp
qed

subsection \<open>One pass through the loop of List\<close>

lemma append_keys_eq:
  "append_keys s acc keys =
     (if \<forall>k\<in>set keys. length (prefix s) + 1 \<le> length (Key k)
      then Inr (acc @ map (\<lambda>k. drop (length (prefix s) + 1) (Key k)) keys)
      else Inl SliceBoundsOutOfRange)"
  by (induction keys arbitrary: acc) (auto simp: removePrefix_def)

lemma List_body_answer:
  assumes "bucket_List (bucket s) pfx sep (marker st) (min (maxSize st) 1000) (pstate w)
             = ((contents, err), p')"
  shows "List_body s pfx sep st w =
     (case err of
        Some e \<Rightarrow> ReturnErr (External e)
      | None \<Rightarrow>
          (case contents of
             None \<Rightarrow> Crash NilDereference
           | Some c \<Rightarrow>
               (case append_keys s (items st) (Contents c) of
                  Inl pn \<Rightarrow> Crash pn
                | Inr items' \<Rightarrow>
                    if IsTruncated c then
                      (if items' = [] then Crash IndexOutOfRange
                       else Continue \<lparr>maxSize = maxSize st - min (maxSize st) 1000,
                                      marker = addPrefix s (last items'),
                                      items = items'\<rparr>)
                    else Break \<lparr>maxSize = maxSize st - min (maxSize st) 1000,
                                 marker = marker st,
                                 items = items'\<rparr>)),
      sent (CallList pfx sep (marker st) (min (maxSize st) 1000)) p' w)"
proof -
  have m: "(if maxSize st < 1000 then maxSize st else 1000) = min (maxSize st) 1000"
    by simp
  show ?thesis
    unfolding List_body_def m Let_def assms
    by (simp split: option.splits sum.splits)
qed

lemma List_loop_step:
  assumes "0 < maxSize st"
  shows "List_loop s pfx sep st w =
        (case List_body s pfx sep st w of
           (Continue st', w') \<Rightarrow> List_loop s pfx sep st' w'
         | (Break st', w') \<Rightarrow> (Ok (items st'), w')
         | (ReturnErr e, w') \<Rightarrow> (Err e, w')
         | (Crash pn, w') \<Rightarrow> (Panic pn, w'))"
  using assms by (subst List_loop.simps) simp

lemma List_loop_done: "\<not> 0 < maxSize st \<Longrightarrow> List_loop s pfx sep st w = (Ok (items st), w)"
  by (subst List_loop.simps) simp

lemma List_loop_page:
  assumes budget: "0 < maxSize st"
      and answer: "bucket_List (bucket s) pfx sep (marker st) (min (maxSize st) 1000) (pstate w)
                     = ((Some page, None), p')"
      and keys: "\<forall>k\<in>set (Contents page). length (prefix s) + 1 \<le> length (Key k)"
      and acc: "items' = items st @ map (\<lambda>k. drop (length (prefix s) + 1) (Key k)) (Contents page)"
  shows "List_loop s pfx sep st w =
          (if IsTruncated page then
             (if items' = []
              then (Panic IndexOutOfRange,
                    sent (CallList pfx sep (marker st) (min (maxSize st) 1000)) p' w)
              else List_loop s pfx sep
                     \<lparr>maxSize = maxSize st - min (maxSize st) 1000,
                      marker = addPrefix s (last items'),
                      items = items'\<rparr>
                     (sent (CallList pfx sep (marker st) (min (maxSize st) 1000)) p' w))
           else (Ok items', sent (CallList pfx sep (marker st) (min (maxSize st) 1000)) p' w))"
  using keys acc
  by (simp add: List_loop_step[OF budget] List_body_answer[OF answer] append_keys_eq)

subsection \<open>Invariants of the loop\<close>

lemma List_loop_errors:
  "fst (List_loop s pfx sep st w) = Err x \<Longrightarrow>
     \<exists>e m n p pg p'. x = External e \<and> bucket_List (bucket s) pfx sep m n p = ((pg, Some e), p')"
proof (induction s pfx sep st w rule: List_loop.induct)
  case (1 s pfx sep st w)
  show ?case
  proof (cases "0 < maxSize st")
    case False
    then show ?thesis using "1.prems" by (simp add: List_loop_done)
  next
    case True
    obtain contents err p' where
      ans: "bucket_List (bucket s) pfx sep (marker st) (min (maxSize st) 1000) (pstate w)
             = ((contents, err), p')"
      by (metis prod.exhaust)
    note body = List_body_answer[OF ans]
    show ?thesis
    proof (cases "List_body s pfx sep st w")
      case (Pair r w')
      show ?thesis
      proof (cases r)
        case (Continue st')
        have "fst (List_loop s pfx sep st' w') = Err x"
          using "1.prems" Pair Continue by (simp add: List_loop_step[OF True])
        then show ?thesis using "1.IH"[OF True Pair[symmetric] Continue] by simp
      next
        case (Break st')
        then show ?thesis using "1.prems" Pair by (simp add: List_loop_step[OF True])
      next
        case (ReturnErr e)
        then have "x = e" using "1.prems" Pair by (simp add: List_loop_step[OF True])
        moreover have "\<exists>e'. err = Some e' \<and> e = External e'"
          using body Pair ReturnErr by (auto split: option.splits sum.splits if_splits)
        ultimately show ?thesis using ans by blast
      next
        case (Crash pn)
        then show ?thesis using "1.prems" Pair by (simp add: List_loop_step[OF True])
      qed
    qed
  qed
qed


subsection \<open>Listing from a store that fills its pages\<close>

lemma filter_after_nth:
  fixes xs :: "('a::linorder) list"
  assumes "sorted_wrt (<) xs" "i < length xs"
  shows "filter (\<lambda>k. xs ! i < k) xs = drop (Suc i) xs"
proof -
  have a: "filter (\<lambda>k. xs ! i < k) (take (Suc i) xs) = []"
  proof -
    have "\<not> xs ! i < x" if "x \<in> set (take (Suc i) xs)" for x
    proof -
      from that obtain j where j: "j < Suc i" "j < length xs" "x = xs ! j"
        by (auto simp: in_set_conv_nth)
      show ?thesis
      proof (cases "j = i")
        case True then show ?thesis using j by simp
      next
        case False
        then have "j < i" using j by simp
        then have "xs ! j < xs ! i" using assms sorted_wrt_nth_less by blast
        then show ?thesis using j by simp
      qed
    qed
    then show ?thesis by (simp add: filter_empty_conv)
  qed
  have b: "filter (\<lambda>k. xs ! i < k) (drop (Suc i) xs) = drop (Suc i) xs"
  proof -
    have "xs ! i < x" if "x \<in> set (drop (Suc i) xs)" for x
    proof -
      from that obtain j where j: "j < length xs - Suc i" "x = xs ! (Suc i + j)"
        by (auto simp: in_set_conv_nth)
      then have "i < Suc i + j" "Suc i + j < length xs" by auto
      then show ?thesis using assms(1) sorted_wrt_nth_less j(2) by blast
    qed
    then show ?thesis by (simp add: filter_id_conv)
  qed
  have "filter (\<lambda>k. xs ! i < k) xs
        = filter (\<lambda>k. xs ! i < k) (take (Suc i) xs @ drop (Suc i) xs)"
    by simp
  also have "\<dots> = drop (Suc i) xs"
    unfolding filter_append a b by simp
  finally show ?thesis .
qed


lemma List_loop_paged:
  fixes s :: "string list OSSStorage"
  assumes bl: "bucket_List (bucket s) = paged_List ceiling"
      and ceil: "1000 \<le> ceiling"
      and srt: "sorted_wrt (<) ks"
      and P: "take (length (prefix s) + 1) P = prefix s @ ''/''"
      and c: "c \<le> length (objects_under P ks)"
      and inv: "filter (\<lambda>k. m = [] \<or> m < k) (objects_under P ks) = drop c (objects_under P ks)"
      and w: "pstate w = ks"
  shows "\<exists>trace.
           List_loop s P '''' \<lparr>maxSize = r, marker = m,
               items = map (drop (length (prefix s) + 1)) (take c (objects_under P ks))\<rparr> w
             = (Ok (map (drop (length (prefix s) + 1)) (take (c + nat r) (objects_under P ks))),
                \<lparr>pstate = ks, calls = calls w @ trace\<rparr>)
         \<and> (\<forall>x\<in>set trace. \<exists>mk n. x = CallList P '''' mk n \<and> n \<le> 1000)"
  using c inv w
proof (induction "nat r" arbitrary: r c m w rule: less_induct)
  case less
  define ms where "ms = objects_under P ks"
  define L where "L = length (prefix s) + 1"
  let ?st = "\<lparr>maxSize = r, marker = m, items = map (drop L) (take c ms)\<rparr>"
  have c: "c \<le> length ms" using less.prems(1) by (simp add: ms_def)
  have inv: "filter (\<lambda>k. m = [] \<or> m < k) ms = drop c ms"
    using less.prems(2) by (simp add: ms_def)
  have sms: "sorted_wrt (<) ms"
    unfolding ms_def objects_under_def using srt by (rule sorted_wrt_filter)
  have LP: "L \<le> length P"
  proof -
    have "length (take L P) = L" using P by (simp add: L_def)
    then show ?thesis by simp
  qed
  have key: "L \<le> length k \<and> addPrefix s (drop L k) = k \<and> k \<noteq> []" if "k \<in> set ms" for k
  proof -
    from that have hp: "length P \<le> length k" "take (length P) k = P"
      by (auto simp: ms_def objects_under_def HasPrefix_def)
    have "take L k = take L (take (length P) k)" using LP by (simp add: min_def)
    also have "\<dots> = prefix s @ ''/''" using hp P by (simp add: L_def)
    finally have t: "take L k = prefix s @ ''/''" .
    have "addPrefix s (drop L k) = take L k @ drop L k"
      unfolding t by (simp add: addPrefix_def)
    then show ?thesis using hp LP by (auto simp: L_def)
  qed
  show ?case
  proof (cases "0 < r")
    case False
    then have "List_loop s P '''' ?st w = (Ok (map (drop L) (take c ms)), w)"
      by (simp add: List_loop_done)
    moreover have "w = \<lparr>pstate = ks, calls = calls w @ []\<rparr>" using less.prems(3) by simp
    moreover have "nat r = 0" using False by simp
    ultimately show ?thesis unfolding ms_def[symmetric] L_def[symmetric]
      by (metis (no_types, lifting) add.right_neutral empty_iff list.set(1))
  next
    case True
    define n where "n = min r 1000"
    define n' where "n' = nat n"
    have n: "0 < n" "n \<le> 1000" "n \<le> r" "1 \<le> n'" "min n 1000 = n"
      using True by (auto simp: n_def n'_def)
    define page where "page = \<lparr>Contents = map (\<lambda>k. \<lparr>Key = k\<rparr>) (take n' (drop c ms)),
                                IsTruncated = (n' < length (drop c ms))\<rparr>"
    have match: "filter (\<lambda>k. HasPrefix k P \<and> (m = [] \<or> m < k)) ks = drop c ms"
    proof -
      have "filter (\<lambda>k. HasPrefix k P \<and> (m = [] \<or> m < k)) ks
            = filter (\<lambda>k. m = [] \<or> m < k) ms"
        by (simp add: ms_def objects_under_def conj_commute)
      then show ?thesis using inv by simp
    qed
    have ans: "bucket_List (bucket s) P '''' (marker ?st) (min (maxSize ?st) 1000) (pstate w)
                 = ((Some page, None), ks)"
    proof -
      have req: "min (maxSize ?st) 1000 = n" by (simp add: n_def)
      have fill: "min (nat n) ceiling = n'" using n ceil by (simp add: n'_def)
      show ?thesis
        unfolding req bl paged_List_def Let_def fill
        using less.prems(3) match by (simp add: page_def)
    qed
    have valid: "\<forall>k\<in>set (Contents page). length (prefix s) + 1 \<le> length (Key k)"
    proof
      fix k assume "k \<in> set (Contents page)"
      then have "Key k \<in> set (take n' (drop c ms))" by (auto simp: page_def)
      then have "Key k \<in> set ms" by (meson in_set_dropD in_set_takeD)
      then show "length (prefix s) + 1 \<le> length (Key k)" using key by (simp add: L_def)
    qed
    define items' where "items' = map (drop L) (take (c + n') ms)"
    have acc: "items' = items ?st @ map (\<lambda>k. drop (length (prefix s) + 1) (Key k)) (Contents page)"
      by (simp add: items'_def page_def take_add L_def comp_def)
    define w' where "w' = sent (CallList P '''' m n) ks w"
    have w': "pstate w' = ks" "calls w' = calls w @ [CallList P '''' m n]"
      by (simp_all add: w'_def sent_def)
    have step: "List_loop s P [] ?st w =
          (if IsTruncated page then
             (if items' = [] then (Panic IndexOutOfRange, w')
              else List_loop s P [] \<lparr>maxSize = r - n, marker = addPrefix s (last items'),
                                         items = items'\<rparr> w')
           else (Ok items', w'))"
      using List_loop_page[OF _ ans valid acc] True by (simp add: n_def w'_def)
    show ?thesis
    proof (cases "IsTruncated page")
      case False
      then have short: "length ms - c \<le> n'" by (simp add: page_def)
      then have "take (c + n') ms = ms" "take (c + nat r) ms = ms"
        using c n by (auto simp: n'_def)
      then have "List_loop s P '''' ?st w = (Ok (map (drop L) (take (c + nat r) ms)), w')"
        using step False by (simp add: items'_def)
      moreover have "w' = \<lparr>pstate = ks, calls = calls w @ [CallList P '''' m n]\<rparr>"
        by (simp add: w'_def sent_def)
      ultimately show ?thesis using n(2) unfolding ms_def[symmetric] L_def[symmetric]
        by (intro exI[of _ "[CallList P '''' m n]"]) simp
    next
      case True
      then have more: "c + n' < length ms" by (simp add: page_def)
      then have ne: "take (c + n') ms \<noteq> []" using n(4) by auto
      then have ine: "items' \<noteq> []" by (simp add: items'_def)
      define m' where "m' = ms ! (c + n' - 1)"
      have lastk: "last (take (c + n') ms) = m'"
        using more n(4) ne by (simp add: last_conv_nth m'_def min_def)
      have m'in: "m' \<in> set ms" using more by (simp add: m'_def)
      have "last items' = drop L m'"
        using ne lastk by (simp add: items'_def last_map)
      then have mk: "addPrefix s (last items') = m'" using key[OF m'in] by simp
      have m'ne: "m' \<noteq> []" using key[OF m'in] by simp
      have inv': "filter (\<lambda>k. m' = [] \<or> m' < k) (objects_under P ks)
                    = drop (c + n') (objects_under P ks)"
      proof -
        have "filter (\<lambda>k. m' < k) ms = drop (Suc (c + n' - 1)) ms"
          unfolding m'_def using sms more by (intro filter_after_nth) auto
        then show ?thesis using m'ne n(4) by (simp add: ms_def)
      qed
      have lt: "nat (r - n) < nat r" using n by simp
      have c': "c + n' \<le> length (objects_under P ks)" using more by (simp add: ms_def)
      from less.hyps[OF lt c' inv' w'(1)]
      obtain trace where
        rec: "List_loop s P '''' \<lparr>maxSize = r - n, marker = m', items = items'\<rparr> w'
               = (Ok (map (drop L) (take (c + n' + nat (r - n)) ms)),
                  \<lparr>pstate = ks, calls = calls w' @ trace\<rparr>)"
        and tr: "\<forall>x\<in>set trace. \<exists>mk n. x = CallList P '''' mk n \<and> n \<le> 1000"
        unfolding ms_def[symmetric] L_def[symmetric] items'_def by blast
      have sum: "c + n' + nat (r - n) = c + nat r" using n by (simp add: n'_def)
      have "List_loop s P '''' ?st w
              = (Ok (map (drop L) (take (c + nat r) ms)),
                 \<lparr>pstate = ks, calls = calls w @ (CallList P '''' m n # trace)\<rparr>)"
        using step True ine rec by (simp add: mk sum w'(2))
      moreover have "\<forall>x\<in>set (CallList P '''' m n # trace). \<exists>mk n. x = CallList P '''' mk n \<and> n \<le> 1000"
        using tr n(2) by simp
      ultimately show ?thesis unfolding ms_def[symmetric] L_def[symmetric] by blast
    qed
  qed
qed

subsection \<open>The answers of one run of the loop\<close>

lemma List_answers_step:
  assumes "0 < maxSize st"
  shows "List_answers s pfx sep st w =
           fst (bucket_List (bucket s) pfx sep (marker st) (min (maxSize st) 1000) (pstate w))
           # (case List_body s pfx sep st w of
                (Continue st', w') \<Rightarrow> List_answers s pfx sep st' w'
              | (Break st', w') \<Rightarrow> []
              | (ReturnErr e, w') \<Rightarrow> []
              | (Crash pn, w') \<Rightarrow> [])"
proof -
  have m: "(if maxSize st < 1000 then maxSize st else 1000) = min (maxSize st) 1000"
    by simp
  show ?thesis
    using assms by (subst List_answers.simps) (simp only: m if_True)
qed

lemma List_answers_done: "\<not> 0 < maxSize st \<Longrightarrow> List_answers s pfx sep st w = []"
  by (subst List_answers.simps) simp

lemma List_loop_paths:
  "fst (List_loop s pfx sep st w) = Ok xs \<Longrightarrow>
     xs = items st @ concat (map (page_paths s) (List_answers s pfx sep st w))
     \<and> (\<forall>a\<in>set (List_answers s pfx sep st w).
           \<exists>pg. a = (Some pg, None)
              \<and> (\<forall>k\<in>set (Contents pg). length (prefix s) + 1 \<le> length (Key k)))"
proof (induction s pfx sep st w rule: List_loop.induct)
  case (1 s pfx sep st w)
  show ?case
  proof (cases "0 < maxSize st")
    case False
    then show ?thesis using "1.prems" by (simp add: List_loop_done List_answers_done)
  next
    case True
    obtain contents err p' where
      ans: "bucket_List (bucket s) pfx sep (marker st) (min (maxSize st) 1000) (pstate w)
             = ((contents, err), p')"
      by (metis prod.exhaust)
    note body = List_body_answer[OF ans]
    note loop = List_loop_step[OF True, of s pfx sep w]
    note answers = List_answers_step[OF True, of s pfx sep w]
    have page: "\<exists>c. contents = Some c \<and> err = None
          \<and> (\<forall>k\<in>set (Contents c). length (prefix s) + 1 \<le> length (Key k))
          \<and> items st' = items st @ page_paths s (contents, err)"
      if r: "fst (List_body s pfx sep st w) = Continue st' \<or> fst (List_body s pfx sep st w) = Break st'"
      for st'
    proof -
      from r body obtain c where c: "contents = Some c" "err = None"
        and it: "append_keys s (items st) (Contents c) = Inr (items st')"
        by (auto split: option.splits sum.splits if_splits)
      from it have "\<forall>k\<in>set (Contents c). length (prefix s) + 1 \<le> length (Key k)"
        and "items st' = items st @ map (\<lambda>k. drop (length (prefix s) + 1) (Key k)) (Contents c)"
        by (auto simp: append_keys_eq split: if_splits)
      then show ?thesis using c by (simp add: page_paths_def)
    qed
    show ?thesis
    proof (cases "List_body s pfx sep st w")
      case (Pair r w')
      show ?thesis
      proof (cases r)
        case (Continue st')
        have run: "fst (List_loop s pfx sep st' w') = Ok xs"
          using "1.prems" Pair Continue by (simp add: loop)
        have rest: "List_answers s pfx sep st w = (contents, err) # List_answers s pfx sep st' w'"
          using Pair Continue ans by (simp add: answers)
        from page[of st'] Pair Continue obtain c where
          c: "contents = Some c" "err = None"
             "\<forall>k\<in>set (Contents c). length (prefix s) + 1 \<le> length (Key k)"
             "items st' = items st @ page_paths s (contents, err)"
          by auto
        from "1.IH"[OF True Pair[symmetric] Continue run] c
        show ?thesis unfolding rest by simp
      next
        case (Break st')
        have xs: "xs = items st'" using "1.prems" Pair Break by (simp add: loop)
        have rest: "List_answers s pfx sep st w = [(contents, err)]"
          using Pair Break ans by (simp add: answers)
        from page[of st'] Pair Break obtain c where
          c: "contents = Some c" "err = None"
             "\<forall>k\<in>set (Contents c). length (prefix s) + 1 \<le> length (Key k)"
             "items st' = items st @ page_paths s (contents, err)"
          by auto
        show ?thesis unfolding rest xs using c by simp
      next
        case (ReturnErr e)
        then show ?thesis using "1.prems" Pair by (simp add: loop)
      next
        case (Crash pn)
        then show ?thesis using "1.prems" Pair by (simp add: loop)
      qed
    qed
  qed
qed

lemma List_loop_last_error:
  "fst (List_loop s pfx sep st w) = Err x \<Longrightarrow>
     List_answers s pfx sep st w \<noteq> []
     \<and> (\<exists>pg e. last (List_answers s pfx sep st w) = (pg, Some e) \<and> x = External e)"
proof (induction s pfx sep st w rule: List_loop.induct)
  case (1 s pfx sep st w)
  show ?case
  proof (cases "0 < maxSize st")
    case False
    then show ?thesis using "1.prems" by (simp add: List_loop_done)
  next
    case True
    obtain contents err p' where
      ans: "bucket_List (bucket s) pfx sep (marker st) (min (maxSize st) 1000) (pstate w)
             = ((contents, err), p')"
      by (metis prod.exhaust)
    note body = List_body_answer[OF ans]
    note loop = List_loop_step[OF True, of s pfx sep w]
    note answers = List_answers_step[OF True, of s pfx sep w]
    show ?thesis
    proof (cases "List_body s pfx sep st w")
      case (Pair r w')
      show ?thesis
      proof (cases r)
        case (Continue st')
        have run: "fst (List_loop s pfx sep st' w') = Err x"
          using "1.prems" Pair Continue by (simp add: loop)
        have rest: "List_answers s pfx sep st w = (contents, err) # List_answers s pfx sep st' w'"
          using Pair Continue ans by (simp add: answers)
        from "1.IH"[OF True Pair[symmetric] Continue run]
        show ?thesis unfolding rest by simp
      next
        case (Break st')
        then show ?thesis using "1.prems" Pair by (simp add: loop)
      next
        case (ReturnErr e)
        have x: "x = e" using "1.prems" Pair ReturnErr by (simp add: loop)
        have rest: "List_answers s pfx sep st w = [(contents, err)]"
          using Pair ReturnErr ans by (simp add: answers)
        have "\<exists>e'. err = Some e' \<and> e = External e'"
          using body Pair ReturnErr by (auto split: option.splits sum.splits if_splits)
        then show ?thesis unfolding rest x by auto
      next
        case (Crash pn)
        then show ?thesis using "1.prems" Pair by (simp add: loop)
      qed
    qed
  qed
qed

lemma List_loop_requests:
  "\<exists>trace. calls (snd (List_loop s pfx sep st w)) = calls w @ trace
      \<and> (\<forall>x\<in>set trace. \<exists>mk n. x = CallList pfx sep mk n \<and> 0 < n \<and> n \<le> 1000)"
proof (induction s pfx sep st w rule: List_loop.induct)
  case (1 s pfx sep st w)
  show ?case
  proof (cases "0 < maxSize st")
    case False
    then show ?thesis by (simp add: List_loop_done)
  next
    case True
    obtain contents err p' where
      ans: "bucket_List (bucket s) pfx sep (marker st) (min (maxSize st) 1000) (pstate w)
             = ((contents, err), p')"
      by (metis prod.exhaust)
    note body = List_body_answer[OF ans]
    note loop = List_loop_step[OF True, of s pfx sep w]
    define rq where "rq = CallList pfx sep (marker st) (min (maxSize st) 1000)"
    have rq: "\<exists>mk n. rq = CallList pfx sep mk n \<and> 0 < n \<and> n \<le> 1000"
      using True by (simp add: rq_def)
    show ?thesis
    proof (cases "List_body s pfx sep st w")
      case (Pair r w')
      have w': "calls w' = calls w @ [rq]"
        using body Pair by (simp add: sent_def rq_def)
      show ?thesis
      proof (cases r)
        case (Continue st')
        from "1.IH"[OF True Pair[symmetric] Continue] obtain trace where
          t: "calls (snd (List_loop s pfx sep st' w')) = calls w' @ trace"
             "\<forall>x\<in>set trace. \<exists>mk n. x = CallList pfx sep mk n \<and> 0 < n \<and> n \<le> 1000"
          by blast
        have "calls (snd (List_loop s pfx sep st w)) = calls w @ (rq # trace)"
          using Pair Continue t(1) w' by (simp add: loop)
        moreover have "\<forall>x\<in>set (rq # trace). \<exists>mk n. x = CallList pfx sep mk n \<and> 0 < n \<and> n \<le> 1000"
          using rq t(2) by simp
        ultimately show ?thesis by blast
      next
        case (Break st')
        then have "calls (snd (List_loop s pfx sep st w)) = calls w @ [rq]"
          using Pair w' by (simp add: loop)
        then show ?thesis using rq by (intro exI[of _ "[rq]"]) simp
      next
        case (ReturnErr e)
        then have "calls (snd (List_loop s pfx sep st w)) = calls w @ [rq]"
          using Pair w' by (simp add: loop)
        then show ?thesis using rq by (intro exI[of _ "[rq]"]) simp
      next
        case (Crash pn)
        then have "calls (snd (List_loop s pfx sep st w)) = calls w @ [rq]"
          using Pair w' by (simp add: loop)
        then show ?thesis using rq by (intro exI[of _ "[rq]"]) simp
      qed
    qed
  qed
qed

subsection \<open>The ascending keys used to show a listing of several pages\<close>

lemma replicate_less: "i < j \<Longrightarrow> replicate i (c::char) < replicate j c"
proof (induction i arbitrary: j)
  case 0
  then show ?case by (cases j) auto
next
  case (Suc i)
  then show ?case by (cases j) auto
qed

lemma append_less: "(xs::string) < ys \<Longrightarrow> zs @ xs < zs @ ys"
  by (induction zs) auto

lemma sorted_many_keys: "sorted_wrt (<) (many_keys n)"
proof -
  have "sorted_wrt (\<lambda>i j. ''backups/'' @ replicate (Suc i) CHR ''k''
                         < ''backups/'' @ replicate (Suc j) CHR ''k'') [0..<n]"
  proof (rule sorted_wrt_mono_rel[of _ "(<)"])
    show "sorted_wrt (<) [0..<n]" by simp
  next
    fix i j :: nat
    assume "i \<in> set [0..<n]" "j \<in> set [0..<n]" "i < j"
    then have "replicate (Suc i) CHR ''k'' < replicate (Suc j) CHR ''k''"
      by (intro replicate_less) simp
    then show "''backups/'' @ replicate (Suc i) CHR ''k'' < ''backups/'' @ replicate (Suc j) CHR ''k''"
      by (rule append_less)
  qed
  then show ?thesis by (simp add: many_keys_def sorted_wrt_map)
qed

lemma objects_under_many_keys: "objects_under ''backups/'' (many_keys n) = many_keys n"
  by (simp add: objects_under_def many_keys_def HasPrefix_def filter_map comp_def)

lemma length_many_keys: "length (many_keys n) = n"
  by (simp add: many_keys_def)

lemma paths_many_keys:
  "m \<le> n \<Longrightarrow> map (drop 8) (take m (many_keys n)) = map (\<lambda>i. replicate (Suc i) CHR ''k'') [0..<m]"
  by (simp add: many_keys_def take_map comp_def min_def)

lemma nth_many_keys: "i < n \<Longrightarrow> many_keys n ! i = ''backups/'' @ replicate (Suc i) CHR ''k''"
  by (simp add: many_keys_def)

lemma take_many_keys: "m \<le> n \<Longrightarrow> take m (many_keys n) = many_keys m"
  by (simp add: many_keys_def take_map min_def)

lemma HasPrefix_many_keys: "k \<in> set (many_keys n) \<Longrightarrow> HasPrefix k ''backups/'' \<and> 8 < length k"
  by (auto simp: many_keys_def HasPrefix_def)

lemma two_pages_many_keys:
  fixes s :: "string list OSSStorage"
  assumes provider: "bucket_List (bucket s) = paged_List ceiling"
      and filled: "1000 \<le> ceiling"
      and pre: "prefix s = ''backups''"
      and b: "0 < b" "b \<le> 1000" "1000 + b < n"
  shows "List s '''' (1000 + int b) \<lparr>pstate = many_keys n, calls = cs\<rparr>
           = (Ok (map (\<lambda>i. replicate (Suc i) CHR ''k'') [0..<1000 + b]),
              \<lparr>pstate = many_keys n,
               calls = cs @ [CallList ''backups/'' '''' '''' 1000,
                             CallList ''backups/'' '''' (''backups/'' @ replicate 1000 CHR ''k'')
                               (int b)]\<rparr>)"
proof -
  define ks where "ks = many_keys n"
  define P where "P = ''backups/''"
  define m1 where "m1 = ''backups/'' @ replicate 1000 CHR ''k''"
  define items1 where "items1 = map (drop 8) (take 1000 ks)"
  define items2 where "items2 = map (drop 8) (take (1000 + b) ks)"
  define st0 where "st0 = \<lparr>maxSize = 1000 + int b, marker = '''', items = []\<rparr>"
  define st1 where "st1 = \<lparr>maxSize = int b, marker = m1, items = items1\<rparr>"
  define st2 where "st2 = \<lparr>maxSize = 0, marker = addPrefix s (last items2), items = items2\<rparr>"
  define w0 where "w0 = \<lparr>pstate = ks, calls = cs\<rparr>"
  define w1 where "w1 = sent (CallList P '''' '''' 1000) ks w0"
  define w2 where "w2 = sent (CallList P '''' m1 (int b)) ks w1"
  define pg1 where "pg1 = \<lparr>Contents = map (\<lambda>k. \<lparr>Key = k\<rparr>) (take 1000 ks), IsTruncated = True\<rparr>"
  define pg2 where "pg2 = \<lparr>Contents = map (\<lambda>k. \<lparr>Key = k\<rparr>) (take b (drop 1000 ks)),
                             IsTruncated = True\<rparr>"
  have len: "length ks = n" by (simp add: ks_def length_many_keys)
  have kne: "ks \<noteq> []" using len b by auto
  have srt: "sorted_wrt (<) ks" unfolding ks_def by (rule sorted_many_keys)
  have hp: "HasPrefix k P \<and> 8 < length k" if "k \<in> set ks" for k
    using that HasPrefix_many_keys unfolding ks_def P_def by blast
  have match: "filter (\<lambda>k. HasPrefix k P \<and> Q k) ks = filter Q ks" for Q
    using hp by (metis (mono_tags, lifting) filter_cong)
  have all: "filter (\<lambda>k. HasPrefix k P) ks = ks"
    using hp by (simp add: filter_id_conv)
  have L: "length (prefix s) + 1 = 8" by (simp add: pre)
  have ap: "addPrefix s x = ''backups/'' @ x" for x
    by (simp add: addPrefix_def pre)
  \<comment> \<open>the first page\<close>
  have budget0: "0 < maxSize st0" by (simp add: st0_def)
  have req0: "min (maxSize st0) 1000 = 1000" using b by (simp add: st0_def)
  have fill0: "min (nat 1000) ceiling = 1000" using filled by simp
  have ans0: "bucket_List (bucket s) P '''' (marker st0) (min (maxSize st0) 1000) (pstate w0)
                = ((Some pg1, None), ks)"
    unfolding req0 provider paged_List_def Let_def fill0 match
    using b by (simp add: st0_def w0_def pg1_def len all)
  have keys0: "\<forall>k\<in>set (Contents pg1). length (prefix s) + 1 \<le> length (Key k)"
    unfolding L using hp by (fastforce simp: pg1_def dest: in_set_takeD)
  have acc0: "items1 = items st0 @ map (\<lambda>k. drop (length (prefix s) + 1) (Key k)) (Contents pg1)"
    unfolding L by (simp add: items1_def st0_def pg1_def comp_def)
  have ne1: "items1 \<noteq> []" using kne by (simp add: items1_def)
  have last1: "last items1 = replicate 1000 CHR ''k''"
  proof -
    have tne: "take 1000 ks \<noteq> []" using kne by simp
    then have "last items1 = drop 8 (last (take 1000 ks))" by (simp add: items1_def last_map)
    also have "last (take 1000 ks) = ks ! 999"
      using b tne by (simp add: last_conv_nth len min_def)
    also have "ks ! 999 = ''backups/'' @ replicate 1000 CHR ''k''"
      unfolding ks_def using b by (subst nth_many_keys) simp_all
    finally show ?thesis by simp
  qed
  have step0: "List_loop s P '''' st0 w0 = List_loop s P '''' st1 w1"
    using List_loop_page[OF budget0 ans0 keys0 acc0] ne1 b
    unfolding req0
    by (simp add: pg1_def st1_def w1_def m1_def last1 ap st0_def w0_def)
  \<comment> \<open>the second page\<close>
  have m1: "m1 = ks ! 999" "m1 \<noteq> []"
    unfolding ks_def m1_def using b by (simp_all add: nth_many_keys)
  have after: "filter (\<lambda>k. m1 = [] \<or> m1 < k) ks = drop 1000 ks"
  proof -
    have "filter (\<lambda>k. ks ! 999 < k) ks = drop (Suc 999) ks"
      using srt b by (intro filter_after_nth) (simp_all add: len)
    then show ?thesis using m1 by simp
  qed
  have after': "filter (\<lambda>k. HasPrefix k P \<and> (m1 = [] \<or> m1 < k)) ks = drop 1000 ks"
    using match[of "\<lambda>k. m1 = [] \<or> m1 < k"] after by simp
  have budget1: "0 < maxSize st1" using b by (simp add: st1_def)
  have req1: "min (maxSize st1) 1000 = int b" using b by (simp add: st1_def)
  have fill1: "min (nat (int b)) ceiling = b" using filled b by simp
  have ans1: "bucket_List (bucket s) P '''' (marker st1) (min (maxSize st1) 1000) (pstate w1)
                = ((Some pg2, None), ks)"
    unfolding req1 provider paged_List_def Let_def fill1 match
    using b by (simp add: st1_def w1_def sent_def pg2_def len after')
  have keys1: "\<forall>k\<in>set (Contents pg2). length (prefix s) + 1 \<le> length (Key k)"
    unfolding L using hp by (fastforce simp: pg2_def dest: in_set_takeD in_set_dropD)
  have acc1: "items2 = items st1 @ map (\<lambda>k. drop (length (prefix s) + 1) (Key k)) (Contents pg2)"
    unfolding L by (simp add: items2_def items1_def st1_def pg2_def comp_def take_add)
  have ne2: "items2 \<noteq> []" using kne by (simp add: items2_def)
  have step1: "List_loop s P '''' st1 w1 = List_loop s P '''' st2 w2"
    using List_loop_page[OF budget1 ans1 keys1 acc1] ne2
    unfolding req1
    by (simp add: pg2_def st2_def w2_def st1_def)
  have stop: "List_loop s P '''' st2 w2 = (Ok items2, w2)"
    by (simp add: List_loop_done st2_def)
  have result: "items2 = map (\<lambda>i. replicate (Suc i) CHR ''k'') [0..<1000 + b]"
    unfolding items2_def ks_def using b by (intro paths_many_keys) simp
  have log: "w2 = \<lparr>pstate = many_keys n,
                   calls = cs @ [CallList ''backups/'' '''' '''' 1000,
                                 CallList ''backups/'' '''' (''backups/'' @ replicate 1000 CHR ''k'')
                                   (int b)]\<rparr>"
    by (simp add: w2_def w1_def w0_def sent_def ks_def P_def m1_def)
  have "List s '''' (1000 + int b) \<lparr>pstate = many_keys n, calls = cs\<rparr> = List_loop s P '''' st0 w0"
    by (simp add: List_def ap P_def st0_def w0_def ks_def)
  then show ?thesis using step0 step1 stop result log by simp
qed

section \<open>The claims\<close>

subsection \<open>C1: pagination exactness\<close>

text \<open>
  Claim C1 says that for every prefix under which exactly \<open>M\<close> objects exist at the
  provider and every requested count \<open>N > 0\<close>, \<open>List prefix N\<close> returns exactly
  \<open>min N M\<close> logical paths. The loop charges every request to the budget at its
  requested size, so a provider that truncates a page below the requested size makes
  \<open>List\<close> return fewer: with a page ceiling of 2 and three objects under the prefix,
  \<open>List\<close> for 3 sends one request for 3 keys, receives 2 and a truncation flag, has
  no budget left and returns 2 paths.
\<close>

theorem List_short_page_counterexample:
  "List (storage_on (listing_Bucket 2) ''backups'') '''' 3 \<lparr>pstate = three_keys, calls = []\<rparr>
     = (Ok [''a'', ''b''],
        \<lparr>pstate = three_keys, calls = [CallList ''backups/'' '''' '''' 3]\<rparr>)
   \<and> sorted_wrt (<) three_keys
   \<and> length (objects_under ''backups/'' three_keys) = 3"
proof -
  let ?s = "storage_on (listing_Bucket 2) ''backups''"
  let ?w = "\<lparr>pstate = three_keys, calls = []\<rparr> :: string list world"
  let ?st = "\<lparr>maxSize = 3, marker = '''', items = []\<rparr>"
  let ?page = "\<lparr>Contents = [\<lparr>Key = ''backups/a''\<rparr>, \<lparr>Key = ''backups/b''\<rparr>], IsTruncated = True\<rparr>"
  have pre: "addPrefix ?s '''' = ''backups/''"
    by (simp add: addPrefix_def storage_on_def)
  have budget: "0 < maxSize ?st" by simp
  have answer: "bucket_List (bucket ?s) ''backups/'' '''' (marker ?st) (min (maxSize ?st) 1000)
                  (pstate ?w) = ((Some ?page, None), three_keys)"
    by (simp add: storage_on_def listing_Bucket_def paged_List_def three_keys_def HasPrefix_def)
  have keys: "\<forall>k\<in>set (Contents ?page). length (prefix ?s) + 1 \<le> length (Key k)"
    by (simp add: storage_on_def)
  have acc: "[''a'', ''b''] = items ?st @ map (\<lambda>k. drop (length (prefix ?s) + 1) (Key k)) (Contents ?page)"
    by (simp add: storage_on_def)
  have run: "List ?s '''' 3 ?w
     = (Ok [''a'', ''b''], \<lparr>pstate = three_keys, calls = [CallList ''backups/'' '''' '''' 3]\<rparr>)"
    unfolding List_def pre
    by (simp add: List_loop_page[OF budget answer keys acc] List_loop_done sent_def)
  have srt: "sorted_wrt (<) three_keys" by (simp add: three_keys_def)
  have cnt: "length (objects_under ''backups/'' three_keys) = 3"
    by (simp add: objects_under_def three_keys_def HasPrefix_def)
  show ?thesis using run srt cnt by simp
qed

text \<open>
  Claim C1, amended. For every prefix under which exactly \<open>M\<close> objects exist at a
  provider that fills each page up to the requested size (ascending keys, a page ceiling
  of at least 1000, the truncation flag set exactly when more keys remain) and every
  requested count \<open>N > 0\<close>, \<open>List prefix N\<close> returns exactly \<open>min N M\<close> logical
  paths, in the order the provider returned them: the first \<open>N\<close> objects under the
  prefixed prefix, each with the adapter's prefix and the slash removed. For every
  provider whatsoever, every request \<open>List\<close> sends is a list request for the prefixed
  prefix that asks for at least one and at most 1000 keys.
\<close>

theorem List_pagination_exact:
  fixes s :: "string list OSSStorage" and t :: "'q OSSStorage"
  assumes provider: "bucket_List (bucket s) = paged_List ceiling"
      and filled: "1000 \<le> ceiling"
      and ordered: "sorted_wrt (<) ks"
      and state: "pstate w = ks"
      and count: "0 < N"
      and M: "M = length (objects_under (addPrefix s lp) ks)"
  shows "fst (List s lp N w)
           = Ok (map (drop (length (prefix s) + 1))
                   (take (nat N) (objects_under (addPrefix s lp) ks)))
       \<and> (\<forall>xs. fst (List s lp N w) = Ok xs \<longrightarrow> int (length xs) = min N (int M))
       \<and> (\<forall>x\<in>set (drop (length (calls v)) (calls (snd (List t lq Nq v)))).
             \<exists>mk n. x = CallList (addPrefix t lq) '''' mk n \<and> 0 < n \<and> n \<le> 1000)"
proof -
  let ?P = "addPrefix s lp"
  have P: "take (length (prefix s) + 1) ?P = prefix s @ ''/''"
    by (simp add: addPrefix_def)
  have c: "0 \<le> length (objects_under ?P ks)" by simp
  have inv: "filter (\<lambda>k. '''' = [] \<or> '''' < k) (objects_under ?P ks)
               = drop 0 (objects_under ?P ks)"
    by simp
  from List_loop_paged[OF provider filled ordered P c inv state, of N]
  have run: "fst (List s lp N w)
            = Ok (map (drop (length (prefix s) + 1)) (take (nat N) (objects_under ?P ks)))"
    unfolding List_def by auto
  have len: "int (length (take (nat N) (objects_under ?P ks))) = min N (int M)"
    using count M by (auto simp: min_def)
  from List_loop_requests[of t "addPrefix t lq" "''''" "\<lparr>maxSize = Nq, marker = '''', items = []\<rparr>" v]
  have req: "\<forall>x\<in>set (drop (length (calls v)) (calls (snd (List t lq Nq v)))).
             \<exists>mk n. x = CallList (addPrefix t lq) '''' mk n \<and> 0 < n \<and> n \<le> 1000"
    unfolding List_def by auto
  show ?thesis using run len req by simp
qed

theorem List_pagination_exact_witness:
  "sorted_wrt (<) (many_keys 1003)
   \<and> length (objects_under ''backups/'' (many_keys 1003)) = 1003
   \<and> fst (List (storage_on (listing_Bucket 1000) ''backups'') '''' 1002
             \<lparr>pstate = many_keys 1003, calls = []\<rparr>)
       = Ok (map (\<lambda>i. replicate (Suc i) CHR ''k'') [0..<1002])
   \<and> calls (snd (List (storage_on (listing_Bucket 1000) ''backups'') '''' 1002
                    \<lparr>pstate = many_keys 1003, calls = []\<rparr>))
       = [CallList ''backups/'' '''' '''' 1000,
          CallList ''backups/'' '''' (''backups/'' @ replicate 1000 CHR ''k'') 2]
   \<and> sorted_wrt (<) demo_keys
   \<and> length (objects_under ''backups/db1/'' demo_keys) = 2
   \<and> fst (List (storage_on (listing_Bucket 1000) ''backups'') ''db1/'' 5
             \<lparr>pstate = demo_keys, calls = []\<rparr>)
       = Ok [''db1/a'', ''db1/b'']"
proof -
  let ?s = "storage_on (listing_Bucket 1000) ''backups''"
  let ?w = "\<lparr>pstate = demo_keys, calls = []\<rparr> :: string list world"
  let ?v = "\<lparr>pstate = many_keys 1003, calls = []\<rparr> :: string list world"
  have provider: "bucket_List (bucket ?s) = paged_List 1000"
    by (simp add: storage_on_def listing_Bucket_def)
  have filled: "(1000::nat) \<le> 1000" by simp
  have len: "length (prefix ?s) = 7"
    by (simp add: storage_on_def)
  \<comment> \<open>a listing of two pages\<close>
  have many: "sorted_wrt (<) (many_keys 1003)" by (rule sorted_many_keys)
  have state': "pstate ?v = many_keys 1003" by simp
  have count': "(0::int) < 1002" by simp
  have pre': "addPrefix ?s '''' = ''backups/''"
    by (simp add: addPrefix_def storage_on_def)
  have M': "(1003::nat) = length (objects_under (addPrefix ?s '''') (many_keys 1003))"
    unfolding pre' objects_under_many_keys length_many_keys by simp
  have paths: "map (drop 8) (take 1002 (many_keys 1003))
                 = map (\<lambda>i. replicate (Suc i) CHR ''k'') [0..<1002]"
    by (rule paths_many_keys) simp
  from List_pagination_exact[OF provider filled many state' count' M']
  have "fst (List ?s '''' 1002 ?v)
          = Ok (map (drop (length (prefix ?s) + 1))
                  (take (nat 1002) (objects_under (addPrefix ?s '''') (many_keys 1003))))"
    by blast
  then have a: "fst (List ?s '''' 1002 ?v) = Ok (map (\<lambda>i. replicate (Suc i) CHR ''k'') [0..<1002])"
    unfolding pre' objects_under_many_keys len using paths by simp
  have "prefix ?s = ''backups''" by (simp add: storage_on_def)
  from two_pages_many_keys[OF provider filled this, of 2 1003 "[]"]
  have c: "calls (snd (List ?s '''' 1002 ?v))
             = [CallList ''backups/'' '''' '''' 1000,
                CallList ''backups/'' '''' (''backups/'' @ replicate 1000 CHR ''k'') 2]"
    by simp
  \<comment> \<open>a listing of one page\<close>
  have ordered: "sorted_wrt (<) demo_keys"
    by (simp add: demo_keys_def)
  have state: "pstate ?w = demo_keys" by simp
  have count: "(0::int) < 5" by simp
  have pre: "addPrefix ?s ''db1/'' = ''backups/db1/''"
    by (simp add: addPrefix_def storage_on_def)
  have objs: "objects_under ''backups/db1/'' demo_keys = [''backups/db1/a'', ''backups/db1/b'']"
    by (simp add: objects_under_def demo_keys_def HasPrefix_def)
  have M: "(2::nat) = length (objects_under (addPrefix ?s ''db1/'') demo_keys)"
    by (simp add: pre objs)
  from List_pagination_exact[OF provider filled ordered state count M]
  have "fst (List ?s ''db1/'' 5 ?w)
          = Ok (map (drop (length (prefix ?s) + 1))
                  (take (nat 5) (objects_under (addPrefix ?s ''db1/'') demo_keys)))"
    by blast
  then have b: "fst (List ?s ''db1/'' 5 ?w) = Ok [''db1/a'', ''db1/b'']"
    unfolding pre objs len by simp
  show ?thesis
    using a b c many ordered by (simp add: objs objects_under_many_keys length_many_keys)
qed

subsection \<open>C2: one iteration of the list loop\<close>

text \<open>
  Claim C2. In every iteration of the list loop the page size requested is
  \<open>min (remaining budget) 1000\<close>; after the request the remaining budget is decremented
  by that request size, whatever the number of keys returned; when the page reports
  truncation the continuation marker becomes the provider key (prefix re-applied) of the
  last item of the accumulated result and the loop goes on, otherwise the loop stops and
  returns the accumulated result. The accumulated result must hold an item for the
  marker to be taken from, and every returned key must be long enough to slice.
\<close>

theorem List_iteration:
  assumes budget: "0 < maxSize st"
      and answer: "bucket_List (bucket s) pfx sep (marker st) (min (maxSize st) 1000) (pstate w)
                     = ((Some page, None), p')"
      and keys: "\<forall>k\<in>set (Contents page). length (prefix s) + 1 \<le> length (Key k)"
      and acc: "items' = items st @ map (\<lambda>k. drop (length (prefix s) + 1) (Key k)) (Contents page)"
  shows "snd (List_body s pfx sep st w)
           = sent (CallList pfx sep (marker st) (min (maxSize st) 1000)) p' w
       \<and> (IsTruncated page \<and> items' \<noteq> [] \<longrightarrow>
            fst (List_body s pfx sep st w)
              = Continue \<lparr>maxSize = maxSize st - min (maxSize st) 1000,
                          marker = addPrefix s (last items'),
                          items = items'\<rparr>
            \<and> List_loop s pfx sep st w =
                List_loop s pfx sep
                  \<lparr>maxSize = maxSize st - min (maxSize st) 1000,
                   marker = addPrefix s (last items'),
                   items = items'\<rparr>
                  (sent (CallList pfx sep (marker st) (min (maxSize st) 1000)) p' w))
       \<and> (\<not> IsTruncated page \<longrightarrow>
            List_loop s pfx sep st w =
              (Ok items', sent (CallList pfx sep (marker st) (min (maxSize st) 1000)) p' w))"
proof -
  have body: "snd (List_body s pfx sep st w)
           = sent (CallList pfx sep (marker st) (min (maxSize st) 1000)) p' w"
    by (simp add: List_body_answer[OF answer])
  have cont: "fst (List_body s pfx sep st w)
              = Continue \<lparr>maxSize = maxSize st - min (maxSize st) 1000,
                          marker = addPrefix s (last items'),
                          items = items'\<rparr>"
    if "IsTruncated page" "items' \<noteq> []"
    using that keys acc by (simp add: List_body_answer[OF answer] append_keys_eq)
  show ?thesis
    using body cont List_loop_page[OF budget answer keys acc] by simp
qed

theorem List_iteration_witness:
  "List_loop (storage_on (serving_Bucket '''') ''backups'') ''backups/'' ''''
      \<lparr>maxSize = 1500, marker = '''', items = []\<rparr> fresh
   = List_loop (storage_on (serving_Bucket '''') ''backups'') ''backups/'' ''''
      \<lparr>maxSize = 500, marker = ''backups/a'', items = [''a'']\<rparr>
      \<lparr>pstate = (), calls = [CallList ''backups/'' '''' '''' 1000]\<rparr>"
proof -
  let ?s = "storage_on (serving_Bucket '''') ''backups''"
  let ?st = "\<lparr>maxSize = 1500, marker = '''', items = []\<rparr>"
  let ?page = "\<lparr>Contents = [\<lparr>Key = ''backups/a''\<rparr>], IsTruncated = True\<rparr>"
  have budget: "0 < maxSize ?st" by simp
  have answer: "bucket_List (bucket ?s) ''backups/'' '''' (marker ?st) (min (maxSize ?st) 1000)
                  (pstate fresh) = ((Some ?page, None), ())"
    by (simp add: storage_on_def serving_Bucket_def const_Bucket_def)
  have keys: "\<forall>k\<in>set (Contents ?page). length (prefix ?s) + 1 \<le> length (Key k)"
    by (simp add: storage_on_def)
  have acc: "[''a''] = items ?st @ map (\<lambda>k. drop (length (prefix ?s) + 1) (Key k)) (Contents ?page)"
    by (simp add: storage_on_def)
  have mk: "addPrefix ?s ''a'' = ''backups/a''"
    by (simp add: addPrefix_def storage_on_def)
  from List_iteration[OF budget answer keys acc]
  show ?thesis by (simp add: mk sent_def fresh_def)
qed

subsection \<open>C3: provisioning at construction\<close>

text \<open>
  Claim C3. During construction a bucket-creation request is issued if and only if the
  one-key existence probe returns an error; when the probe succeeds no creation request
  is made and construction succeeds; when both the probe and the creation attempt fail,
  construction returns an error and no adapter value.
\<close>

theorem NewOSSStorage_provisioning:
  assumes probe: "bucket_List (client_Bucket (NewOSSClient region' False keyID secret secure) bucketName)
            '''' ''/'' '''' 1 (pstate w) = ((page, probe_err), p1)"
      and create: "bucket_PutBucket (client_Bucket (NewOSSClient region' False keyID secret secure) bucketName)
            bucketACL p1 = (create_err, p2)"
      and run: "NewOSSStorage NewOSSClient bucketName prefix' region' internal keyID secret secure
            bucketACL w = (res, w')"
  shows "calls w' = calls w @ CallList '''' ''/'' '''' 1 #
                      (if probe_err = None then [] else [CallPutBucket bucketACL])
     \<and> ((\<exists>acl. CallPutBucket acl \<in> set (drop (length (calls w)) (calls w')))
          \<longleftrightarrow> probe_err \<noteq> None)
     \<and> (probe_err = None \<longrightarrow>
          res = Inr \<lparr>oss = NewOSSClient region' False keyID secret secure,
                    bucket = client_Bucket (NewOSSClient region' False keyID secret secure) bucketName,
                    region = region', prefix = prefix'\<rparr>)
     \<and> (\<forall>e. probe_err \<noteq> None \<and> create_err = Some e \<longrightarrow> res = Inl (External e))"
  using assms
  by (auto simp: NewOSSStorage_def Let_def sent_def split: option.splits prod.splits)

theorem NewOSSStorage_provisioning_witness:
  "NewOSSStorage (const_Client denying_Bucket) ''bkt'' ''backups'' ''oss-cn-hangzhou'' False
      ''id'' ''secret'' True (ACL ''public-read'') fresh
   = (Inl (External access_denied),
      \<lparr>pstate = (), calls = [CallList '''' ''/'' '''' 1, CallPutBucket (ACL ''public-read'')]\<rparr>)"
proof -
  let ?b = "client_Bucket (const_Client denying_Bucket ''oss-cn-hangzhou'' False ''id'' ''secret'' True) ''bkt''"
  have probe: "bucket_List ?b '''' ''/'' '''' 1 (pstate fresh) = ((None, Some access_denied), ())"
    by (simp add: const_Client_def denying_Bucket_def const_Bucket_def)
  have create: "bucket_PutBucket ?b (ACL ''public-read'') () = (Some access_denied, ())"
    by (simp add: const_Client_def denying_Bucket_def const_Bucket_def)
  obtain res w' where run: "NewOSSStorage (const_Client denying_Bucket) ''bkt'' ''backups''
      ''oss-cn-hangzhou'' False ''id'' ''secret'' True (ACL ''public-read'') fresh = (res, w')"
    by (metis prod.exhaust)
  from NewOSSStorage_provisioning[OF probe create run]
  have "res = Inl (External access_denied)"
    and "calls w' = [CallList '''' ''/'' '''' 1, CallPutBucket (ACL ''public-read'')]"
    by (simp_all add: fresh_def)
  then show ?thesis using run by (cases w') simp
qed

subsection \<open>C4: not-found reclassification\<close>

text \<open>
  Claim C4 says that \<open>Get\<close> on an absent key returns a typed not-found error. \<open>Get\<close>
  does not look at whether the key exists: it compares the text of the provider's error
  with "The specified key does not exist." for exact equality. A store that reports an
  absent key with any other text, here one that wraps the same message in a longer
  one, gets its own error back from \<open>Get\<close>, not the not-found error.
\<close>

theorem Get_absent_key_other_text_counterexample:
  "pstate empty_store ''backups/k'' = None
   \<and> fst (Get (storage_on (store_Bucket wrapped_no_such_key) ''backups'') ''k'' empty_store)
       = Err (External wrapped_no_such_key)
   \<and> fst (Get (storage_on (store_Bucket wrapped_no_such_key) ''backups'') ''k'' empty_store)
       \<noteq> Err (ErrNotFound ''backups/k'')"
  by (simp add: Get_def storage_on_def store_Bucket_def addPrefix_def empty_store_def
        wrapped_no_such_key_def Let_def)

text \<open>
  Claim C4, amended. \<open>Get\<close> returns a typed not-found error exactly when the provider
  answers the read with an error whose message is equal to the text
  "The specified key does not exist."; an absent key that the provider reports with
  another message, like every other provider error, is returned unchanged. \<open>Delete\<close>
  returns the provider's answer as it is, and an error returned by \<open>List\<close> is the
  error the provider answered to the last list request of that call, unchanged: neither
  performs the reclassification.
\<close>

theorem not_found_only_in_Get:
  "(\<forall>resp e p'. bucket_GetResponse (bucket s) (addPrefix s path) (pstate w) = ((resp, Some e), p') \<longrightarrow>
       fst (Get s path w) =
         (if Error e = ''The specified key does not exist.''
          then Err (ErrNotFound (addPrefix s path)) else Err (External e)))
   \<and> ((\<exists>q. fst (Get s path w) = Err (ErrNotFound q)) \<longleftrightarrow>
        (\<exists>e. snd (fst (bucket_GetResponse (bucket s) (addPrefix s path) (pstate w))) = Some e
             \<and> Error e = ''The specified key does not exist.''))
   \<and> fst (Delete s path w) =
       map_option External (fst (bucket_Del (bucket s) (addPrefix s path) (pstate w)))
   \<and> (\<forall>x. fst (List s lp N w) = Err x \<longrightarrow>
         (\<exists>e m n p pg p'. x = External e
            \<and> bucket_List (bucket s) (addPrefix s lp) '''' m n p = ((pg, Some e), p')))
   \<and> (\<forall>x. fst (List s lp N w) = Err x \<longrightarrow>
         (\<exists>pg e. last (List_answers s (addPrefix s lp) ''''
                          \<lparr>maxSize = N, marker = '''', items = []\<rparr> w) = (pg, Some e)
            \<and> x = External e))"
proof -
  have g: "\<forall>resp e p'. bucket_GetResponse (bucket s) (addPrefix s path) (pstate w) = ((resp, Some e), p') \<longrightarrow>
       fst (Get s path w) =
         (if Error e = ''The specified key does not exist.''
          then Err (ErrNotFound (addPrefix s path)) else Err (External e))"
    by (auto simp: Get_def Let_def)
  have i: "(\<exists>q. fst (Get s path w) = Err (ErrNotFound q)) \<longleftrightarrow>
        (\<exists>e. snd (fst (bucket_GetResponse (bucket s) (addPrefix s path) (pstate w))) = Some e
             \<and> Error e = ''The specified key does not exist.'')"
  proof
    assume "\<exists>q. fst (Get s path w) = Err (ErrNotFound q)"
    then show "\<exists>e. snd (fst (bucket_GetResponse (bucket s) (addPrefix s path) (pstate w))) = Some e
             \<and> Error e = ''The specified key does not exist.''"
      using hex_DecodeString_errors
      by (fastforce simp: Get_def Let_def split: prod.splits option.splits sum.splits if_splits)
  next
    assume "\<exists>e. snd (fst (bucket_GetResponse (bucket s) (addPrefix s path) (pstate w))) = Some e
             \<and> Error e = ''The specified key does not exist.''"
    then show "\<exists>q. fst (Get s path w) = Err (ErrNotFound q)"
      by (auto simp: Get_def Let_def split: prod.splits)
  qed
  have d: "fst (Delete s path w) =
       map_option External (fst (bucket_Del (bucket s) (addPrefix s path) (pstate w)))"
    by (simp add: Delete_def Let_def split: prod.splits)
  have l: "\<forall>x. fst (List s lp N w) = Err x \<longrightarrow>
         (\<exists>e m n p pg p'. x = External e
            \<and> bucket_List (bucket s) (addPrefix s lp) '''' m n p = ((pg, Some e), p'))"
    unfolding List_def using List_loop_errors by blast
  have l': "\<forall>x. fst (List s lp N w) = Err x \<longrightarrow>
         (\<exists>pg e. last (List_answers s (addPrefix s lp) ''''
                          \<lparr>maxSize = N, marker = '''', items = []\<rparr> w) = (pg, Some e)
            \<and> x = External e)"
    unfolding List_def using List_loop_last_error by blast
  show ?thesis using g i d l l' by blast
qed

theorem not_found_only_in_Get_witness:
  "fst (Get (storage_on (store_Bucket no_such_key) ''backups'') ''k'' empty_store)
     = Err (ErrNotFound ''backups/k'')
   \<and> fst (Get (storage_on denying_Bucket ''backups'') ''k'' fresh) = Err (External access_denied)
   \<and> fst (Delete (storage_on missing_Bucket ''backups'') ''k'' fresh) = Some (External no_such_key)
   \<and> fst (List (storage_on missing_Bucket ''backups'') ''db1/'' 5 fresh) = Err (External no_such_key)"
proof -
  let ?a = "storage_on (store_Bucket no_such_key) ''backups''"
  let ?m = "storage_on missing_Bucket ''backups''"
  let ?d = "storage_on denying_Bucket ''backups''"
  let ?st = "\<lparr>maxSize = 5, marker = '''', items = []\<rparr>"
  have a: "bucket_GetResponse (bucket ?a) (addPrefix ?a ''k'') (pstate empty_store)
             = ((None, Some no_such_key), Map.empty)"
    by (simp add: storage_on_def store_Bucket_def empty_store_def)
  have b: "bucket_GetResponse (bucket ?d) (addPrefix ?d ''k'') (pstate fresh)
             = ((None, Some access_denied), ())"
    by (simp add: storage_on_def denying_Bucket_def const_Bucket_def)
  have c: "fst (bucket_Del (bucket ?m) (addPrefix ?m ''k'') (pstate fresh)) = Some no_such_key"
    by (simp add: storage_on_def missing_Bucket_def const_Bucket_def)
  have pa: "addPrefix ?a ''k'' = ''backups/k''"
    by (simp add: addPrefix_def storage_on_def)
  have ans: "bucket_List (bucket ?m) (addPrefix ?m ''db1/'') '''' (marker ?st) (min (maxSize ?st) 1000)
               (pstate fresh) = ((None, Some no_such_key), ())"
    by (simp add: storage_on_def missing_Bucket_def const_Bucket_def)
  have budget: "0 < maxSize ?st" by simp
  have run: "\<exists>x. fst (List ?m ''db1/'' 5 fresh) = Err x"
    by (simp add: List_def List_loop_step[OF budget] List_body_answer[OF ans])
  have answers: "List_answers ?m (addPrefix ?m ''db1/'') '''' ?st fresh = [(None, Some no_such_key)]"
    using ans by (simp add: List_answers_step[OF budget] List_body_answer[OF ans])
  have lit: "Error no_such_key = ''The specified key does not exist.''"
    by (simp add: no_such_key_def)
  have other: "Error access_denied \<noteq> ''The specified key does not exist.''"
    by (simp add: access_denied_def)
  from not_found_only_in_Get[of ?a "''k''" empty_store, THEN conjunct1] a
  have 1: "fst (Get ?a ''k'' empty_store) = Err (ErrNotFound ''backups/k'')"
    by (simp add: pa lit)
  from not_found_only_in_Get[of ?m "''k''" fresh, THEN conjunct2, THEN conjunct2, THEN conjunct1] c
  have 2: "fst (Delete ?m ''k'' fresh) = Some (External no_such_key)"
    by simp
  from not_found_only_in_Get[of ?d "''k''" fresh, THEN conjunct1] b
  have 3: "fst (Get ?d ''k'' fresh) = Err (External access_denied)"
    by (simp add: other)
  from not_found_only_in_Get[of ?m _ fresh "''db1/''" 5,
         THEN conjunct2, THEN conjunct2, THEN conjunct2, THEN conjunct2] run
  have 4: "fst (List ?m ''db1/'' 5 fresh) = Err (External no_such_key)"
    unfolding answers by auto
  show ?thesis using 1 2 3 4 by simp
qed

subsection \<open>C5: the digest header of a read response\<close>

text \<open>
  Claim C5. For every successful provider read response, \<open>Get\<close> returns an error when
  the digest header is absent or present with zero values; otherwise the first header
  value has one leading and one trailing quote character removed and is hex-decoded;
  \<open>Get\<close> returns the decode error exactly when that string is not valid hexadecimal,
  and only when decoding succeeds does it return a checksum-wrapped stream.
\<close>

theorem Get_digest_header:
  assumes "bucket_GetResponse (bucket s) (addPrefix s path) (pstate w) = ((Some r, None), p')"
  shows "(Header r ''Etag'' = None \<longrightarrow> fst (Get s path w) = Err (ErrorsNew ''No Etag header''))
     \<and> (Header r ''Etag'' = Some [] \<longrightarrow> fst (Get s path w) = Err (ErrorsNew ''Etag header is empty''))
     \<and> (\<forall>v vs. Header r ''Etag'' = Some (v # vs) \<longrightarrow>
           fst (Get s path w) =
             (case hex_DecodeString (unquoted v) of
                Inl e \<Rightarrow> Err e
              | Inr checksum \<Rightarrow> Ok (NewChecksummingReader (Body r) checksum))
           \<and> ((\<exists>e. fst (Get s path w) = Err e) \<longleftrightarrow> \<not> valid_hex (unquoted v)))
     \<and> (\<forall>rd. fst (Get s path w) = Ok rd \<longrightarrow>
           (\<exists>v vs checksum. Header r ''Etag'' = Some (v # vs)
              \<and> hex_DecodeString (unquoted v) = Inr checksum
              \<and> rd = NewChecksummingReader (Body r) checksum))"
proof -
  have none: "Header r ''Etag'' = None \<Longrightarrow> fst (Get s path w) = Err (ErrorsNew ''No Etag header'')"
    using assms by (simp add: Get_def Let_def)
  have empty: "Header r ''Etag'' = Some [] \<Longrightarrow>
      fst (Get s path w) = Err (ErrorsNew ''Etag header is empty'')"
    using assms by (simp add: Get_def Let_def)
  have some: "fst (Get s path w) =
             (case hex_DecodeString (unquoted v) of
                Inl e \<Rightarrow> Err e
              | Inr checksum \<Rightarrow> Ok (NewChecksummingReader (Body r) checksum))"
    if "Header r ''Etag'' = Some (v # vs)" for v vs
    using assms that by (simp add: Get_def Let_def Trim_unquoted split: sum.splits)
  have iff: "(\<exists>e. fst (Get s path w) = Err e) \<longleftrightarrow> \<not> valid_hex (unquoted v)"
    if h: "Header r ''Etag'' = Some (v # vs)" for v vs
    using hex_DecodeString_ok_iff[of "unquoted v"] some[OF h]
    by (cases "hex_DecodeString (unquoted v)") auto
  have ok: "\<exists>v vs checksum. Header r ''Etag'' = Some (v # vs)
              \<and> hex_DecodeString (unquoted v) = Inr checksum
              \<and> rd = NewChecksummingReader (Body r) checksum"
    if g: "fst (Get s path w) = Ok rd" for rd
  proof (cases "Header r ''Etag''")
    case None
    then show ?thesis using none g by simp
  next
    case (Some vals)
    show ?thesis
    proof (cases vals)
      case Nil
      then show ?thesis using empty Some g by simp
    next
      case (Cons v vs)
      then show ?thesis using some[of v vs] Some g by (auto split: sum.splits)
    qed
  qed
  show ?thesis using none empty some iff ok by blast
qed

theorem Get_digest_header_witness:
  "fst (Get (storage_on (serving_Bucket demo_etag) ''backups'') ''k'' fresh)
     = Ok (NewChecksummingReader (Reader [[1, 2], [3]] None) [0x0a, 0xff])
   \<and> fst (Get (storage_on (serving_Bucket ''0aF'') ''backups'') ''k'' fresh) = Err ErrLength
   \<and> \<not> valid_hex ''0aF''"
proof -
  let ?q = "demo_etag"
  let ?s = "storage_on (serving_Bucket ?q) ''backups''"
  let ?t = "storage_on (serving_Bucket ''0aF'') ''backups''"
  have a: "bucket_GetResponse (bucket ?s) (addPrefix ?s ''k'') (pstate fresh)
             = ((Some (etag_Response ?q), None), ())"
    by (simp add: storage_on_def serving_Bucket_def const_Bucket_def)
  have b: "bucket_GetResponse (bucket ?t) (addPrefix ?t ''k'') (pstate fresh)
             = ((Some (etag_Response ''0aF''), None), ())"
    by (simp add: storage_on_def serving_Bucket_def const_Bucket_def)
  have ha: "Header (etag_Response ?q) ''Etag'' = Some [?q]"
    and hb: "Header (etag_Response ''0aF'') ''Etag'' = Some [''0aF'']"
    by (simp_all add: etag_Response_def)
  have ua: "unquoted ?q = ''0aFf''" and ub: "unquoted ''0aF'' = ''0aF''"
    by (simp_all add: unquoted_def quote_def demo_etag_def)
  have da: "hex_DecodeString ''0aFf'' = Inr [0x0a, 0xff]"
    by (simp add: fromHexChar_def)
  have db: "hex_DecodeString ''0aF'' = Inl ErrLength"
    by (simp add: fromHexChar_def)
  have nv: "\<not> valid_hex ''0aF''" by (simp add: valid_hex_def)
  from Get_digest_header[OF a] ha
  have "fst (Get ?s ''k'' fresh) =
          (case hex_DecodeString (unquoted demo_etag) of
             Inl e \<Rightarrow> Err e
           | Inr checksum \<Rightarrow> Ok (NewChecksummingReader (Body (etag_Response demo_etag)) checksum))"
    by blast
  then have 1: "fst (Get ?s ''k'' fresh)
                  = Ok (NewChecksummingReader (Reader [[1, 2], [3]] None) [0x0a, 0xff])"
    unfolding ua da by (simp add: etag_Response_def)
  from Get_digest_header[OF b] hb
  have "fst (Get ?t ''k'' fresh) =
          (case hex_DecodeString (unquoted ''0aF'') of
             Inl e \<Rightarrow> Err e
           | Inr checksum \<Rightarrow> Ok (NewChecksummingReader (Body (etag_Response ''0aF'')) checksum))"
    by blast
  then have 2: "fst (Get ?t ''k'' fresh) = Err ErrLength"
    unfolding ub db by simp
  show ?thesis using 1 2 nv by simp
qed

subsection \<open>C6: the prefix round trip\<close>

text \<open>
  Claim C6. \<open>addPrefix\<close> joins the configured prefix and the path with a single slash,
  \<open>removePrefix\<close> strips exactly \<open>len(prefix)+1\<close> leading characters, and
  \<open>removePrefix (addPrefix K) = K\<close>. This holds for every logical path \<open>K\<close> and
  every prefix, so in particular for the paths that do not contain the prefix.
\<close>

theorem removePrefix_addPrefix:
  "addPrefix s K = prefix s @ ''/'' @ K
   \<and> removePrefix s (addPrefix s K) = Inr (drop (length (prefix s) + 1) (addPrefix s K))
   \<and> removePrefix s (addPrefix s K) = Inr K"
  by (simp add: addPrefix_def removePrefix_def)

theorem removePrefix_addPrefix_witness:
  "addPrefix (storage_on missing_Bucket ''backups'') ''db1/000001.sst'' = ''backups/db1/000001.sst''
   \<and> removePrefix (storage_on missing_Bucket ''backups'') ''backups/db1/000001.sst''
       = Inr ''db1/000001.sst''"
  using removePrefix_addPrefix[of "storage_on missing_Bucket ''backups''" "''db1/000001.sst''"]
  by (simp add: storage_on_def addPrefix_def removePrefix_def)

subsection \<open>C7: the write request\<close>

text \<open>
  Claim C7 says that the write request of \<open>Put\<close> carries the content type
  "application/octet-stream" and the access-control value configured at construction.
  The content type is as claimed; the access-control value is not: an adapter
  constructed with "public-read" writes with "private".
\<close>

theorem Put_acl_counterexample:
  "fst (NewOSSStorage (const_Client missing_Bucket) ''bkt'' ''backups'' ''oss-cn-hangzhou'' False
          ''id'' ''secret'' True (ACL ''public-read'') fresh)
     = Inr (storage_on missing_Bucket ''backups'')
   \<and> calls (snd (Put (storage_on missing_Bucket ''backups'') ''k'' [1, 2, 3] fresh))
     = [CallPut ''backups/k'' [1, 2, 3] ''application/octet-stream'' (ACL ''private'')]
   \<and> ACL ''private'' \<noteq> ACL ''public-read''"
  by (simp add: NewOSSStorage_def const_Client_def missing_Bucket_def const_Bucket_def
        storage_on_def Put_def addPrefix_def Private_def sent_def fresh_def Let_def)

text \<open>
  Claim C7, amended. For every call to \<open>Put\<close> on an adapter that construction
  returned, whatever access-control value was configured, the one request sent is a
  write of the data under the prefixed key with content type "application/octet-stream"
  and the access-control value "private".
\<close>

theorem Put_request_private:
  assumes "NewOSSStorage NewOSSClient bucketName prefix' region' internal keyID secret secure
             bucketACL w0 = (Inr s, w1)"
  shows "calls (snd (Put s path data w))
           = calls w @ [CallPut (prefix' @ ''/'' @ path) data ''application/octet-stream''
                          (ACL ''private'')]"
proof -
  have "prefix s = prefix'"
    using assms by (auto simp: NewOSSStorage_def Let_def split: prod.splits option.splits)
  then show ?thesis
    by (simp add: Put_def sent_def addPrefix_def Private_def Let_def split: prod.splits)
qed

theorem Put_request_private_witness:
  "calls (snd (Put (storage_on missing_Bucket ''backups'') ''k'' [1, 2, 3]
                 \<lparr>pstate = (), calls = [CallList '''' ''/'' '''' 1]\<rparr>))
     = [CallList '''' ''/'' '''' 1,
        CallPut ''backups/k'' [1, 2, 3] ''application/octet-stream'' (ACL ''private'')]"
proof -
  have c: "NewOSSStorage (const_Client missing_Bucket) ''bkt'' ''backups'' ''oss-cn-hangzhou'' False
          ''id'' ''secret'' True (ACL ''public-read'') fresh
     = (Inr (storage_on missing_Bucket ''backups''),
        \<lparr>pstate = (), calls = [CallList '''' ''/'' '''' 1, CallPutBucket (ACL ''public-read'')]\<rparr>)"
    by (simp add: NewOSSStorage_def const_Client_def missing_Bucket_def const_Bucket_def
        storage_on_def sent_def fresh_def Let_def no_such_key_def)
  from Put_request_private[OF c, of "''k''" "[1, 2, 3]" "\<lparr>pstate = (), calls = [CallList '''' ''/'' '''' 1]\<rparr>"]
  show ?thesis by simp
qed

subsection \<open>C8: what the caller sees of the provider-side prefix\<close>

text \<open>
  Claim C8 says that no value handed back to the caller exposes the provider-side
  prefix: list results have it stripped, and every error of get, put, delete or list
  identifies objects by logical path only. The not-found error of \<open>Get\<close> is built
  from the prefixed key: for the path "k" under the prefix "backups" it carries
  "backups/k".
\<close>

theorem Get_not_found_carries_provider_key_counterexample:
  "fst (Get (storage_on missing_Bucket ''backups'') ''k'' fresh) = Err (ErrNotFound ''backups/k'')
   \<and> fst (Get (storage_on missing_Bucket ''backups'') ''k'' fresh) \<noteq> Err (ErrNotFound ''k'')
   \<and> addPrefix (storage_on missing_Bucket ''backups'') ''k'' = ''backups/k''"
  by (simp add: Get_def storage_on_def missing_Bucket_def const_Bucket_def addPrefix_def
        no_such_key_def fresh_def Let_def)

text \<open>
  Claim C8, amended. The paths \<open>List\<close> returns are exactly the keys of the pages the
  provider answered to the list requests of that call, page after page and in the
  order of each page, every key with its first \<open>len(prefix)+1\<close> characters removed.
  Errors are not translated: the not-found error of \<open>Get\<close> carries the prefixed
  provider key; every other error of \<open>Get\<close> is the error the provider answered to
  the read, unchanged, or one of the digest-header errors, which name no object; an
  error of \<open>Put\<close> or \<open>Delete\<close> is the error the provider answered to that request,
  unchanged; an error of \<open>List\<close> is the error the provider answered to the last list
  request of that call, unchanged.
\<close>

theorem caller_visible_paths:
  "(\<forall>xs. fst (List s lp N w) = Ok xs \<longrightarrow>
      xs = concat (map (page_paths s)
                    (List_answers s (addPrefix s lp) '''' \<lparr>maxSize = N, marker = '''', items = []\<rparr> w))
      \<and> (\<forall>a\<in>set (List_answers s (addPrefix s lp) '''' \<lparr>maxSize = N, marker = '''', items = []\<rparr> w).
            \<exists>pg. a = (Some pg, None)
               \<and> (\<forall>k\<in>set (Contents pg). length (prefix s) + 1 \<le> length (Key k))))
   \<and> (\<forall>x. fst (Get s path w) = Err x \<longrightarrow>
         (\<exists>e. snd (fst (bucket_GetResponse (bucket s) (addPrefix s path) (pstate w))) = Some e
               \<and> x = (if Error e = ''The specified key does not exist.''
                      then ErrNotFound (prefix s @ ''/'' @ path) else External e))
         \<or> x = ErrorsNew ''No Etag header''
         \<or> x = ErrorsNew ''Etag header is empty''
         \<or> x = ErrLength
         \<or> (\<exists>c. x = InvalidByteError c))
   \<and> (\<forall>x. fst (Put s path data w) = Some x \<longrightarrow>
         (\<exists>e. x = External e
            \<and> fst (bucket_Put (bucket s) (addPrefix s path) data ''application/octet-stream''
                     Private (pstate w)) = Some e))
   \<and> (\<forall>x. fst (Delete s path w) = Some x \<longrightarrow>
         (\<exists>e. x = External e
            \<and> fst (bucket_Del (bucket s) (addPrefix s path) (pstate w)) = Some e))
   \<and> (\<forall>x. fst (List s lp N w) = Err x \<longrightarrow>
         (\<exists>pg e. last (List_answers s (addPrefix s lp) ''''
                          \<lparr>maxSize = N, marker = '''', items = []\<rparr> w) = (pg, Some e)
            \<and> x = External e))"
proof -
  let ?answers = "List_answers s (addPrefix s lp) '''' \<lparr>maxSize = N, marker = '''', items = []\<rparr> w"
  have l: "xs = concat (map (page_paths s) ?answers)
      \<and> (\<forall>a\<in>set ?answers.
            \<exists>pg. a = (Some pg, None)
               \<and> (\<forall>k\<in>set (Contents pg). length (prefix s) + 1 \<le> length (Key k)))"
    if ok: "fst (List s lp N w) = Ok xs" for xs
    using List_loop_paths[OF ok[unfolded List_def]] by simp
  have g: "(\<exists>e. snd (fst (bucket_GetResponse (bucket s) (addPrefix s path) (pstate w))) = Some e
               \<and> x = (if Error e = ''The specified key does not exist.''
                      then ErrNotFound (prefix s @ ''/'' @ path) else External e))
         \<or> x = ErrorsNew ''No Etag header''
         \<or> x = ErrorsNew ''Etag header is empty''
         \<or> x = ErrLength
         \<or> (\<exists>c. x = InvalidByteError c)"
    if "fst (Get s path w) = Err x" for x
    using that hex_DecodeString_errors
    by (auto simp: Get_def Let_def addPrefix_def
             split: prod.splits option.splits sum.splits if_splits)
  have p: "\<exists>e. x = External e
            \<and> fst (bucket_Put (bucket s) (addPrefix s path) data ''application/octet-stream''
                     Private (pstate w)) = Some e"
    if "fst (Put s path data w) = Some x" for x
    using that by (auto simp: Put_def Let_def split: prod.splits)
  have d: "\<exists>e. x = External e
            \<and> fst (bucket_Del (bucket s) (addPrefix s path) (pstate w)) = Some e"
    if "fst (Delete s path w) = Some x" for x
    using that by (auto simp: Delete_def Let_def split: prod.splits)
  have e: "\<exists>pg e. last ?answers = (pg, Some e) \<and> x = External e"
    if "fst (List s lp N w) = Err x" for x
    using List_loop_last_error[OF that[unfolded List_def]] by simp
  show ?thesis using l g p d e by blast
qed

theorem caller_visible_paths_witness:
  "fst (List (storage_on (serving_Bucket []) ''backups'') '''' 1 fresh) = Ok [''a'']
   \<and> List_answers (storage_on (serving_Bucket []) ''backups'') ''backups/'' ''''
        \<lparr>maxSize = 1, marker = '''', items = []\<rparr> fresh
       = [(Some \<lparr>Contents = [\<lparr>Key = ''backups/a''\<rparr>], IsTruncated = True\<rparr>, None)]
   \<and> page_paths (storage_on (serving_Bucket []) ''backups'')
        (Some \<lparr>Contents = [\<lparr>Key = ''backups/a''\<rparr>], IsTruncated = True\<rparr>, None) = [''a'']"
proof -
  let ?s = "storage_on (serving_Bucket []) ''backups''"
  let ?st = "\<lparr>maxSize = 1, marker = '''', items = []\<rparr>"
  let ?page = "\<lparr>Contents = [\<lparr>Key = ''backups/a''\<rparr>], IsTruncated = True\<rparr>"
  have pre: "addPrefix ?s '''' = ''backups/''"
    by (simp add: addPrefix_def storage_on_def)
  have budget: "0 < maxSize ?st" by simp
  have answer: "bucket_List (bucket ?s) ''backups/'' '''' (marker ?st) (min (maxSize ?st) 1000)
                  (pstate fresh) = ((Some ?page, None), ())"
    by (simp add: storage_on_def serving_Bucket_def const_Bucket_def)
  have len: "prefix ?s = ''backups''"
    by (simp add: storage_on_def)
  have mk: "addPrefix ?s ''a'' = ''backups/a''"
    by (simp add: addPrefix_def storage_on_def)
  have body: "List_body ?s ''backups/'' '''' ?st fresh
                = (Continue \<lparr>maxSize = 0, marker = ''backups/a'', items = [''a'']\<rparr>,
                   sent (CallList ''backups/'' '''' '''' 1) () fresh)"
    by (simp add: List_body_answer[OF answer] append_keys_eq len mk)
  have answers: "List_answers ?s ''backups/'' '''' ?st fresh = [(Some ?page, None)]"
    using answer
    by (simp add: List_answers_step[OF budget] body List_answers_done)
  have paths: "page_paths ?s (Some ?page, None) = [''a'']"
    by (simp add: page_paths_def len)
  have run: "\<exists>xs. fst (List ?s '''' 1 fresh) = Ok xs"
    unfolding List_def pre
    by (simp add: List_loop_step[OF budget] body List_loop_done)
  then obtain xs where xs: "fst (List ?s '''' 1 fresh) = Ok xs" by blast
  from caller_visible_paths[of ?s "''''" 1 fresh, THEN conjunct1] xs
  have "xs = concat (map (page_paths ?s) (List_answers ?s (addPrefix ?s '''') '''' ?st fresh))"
    by blast
  then have "xs = [''a'']" unfolding pre answers using paths by simp
  then show ?thesis using xs answers paths by simp
qed

subsection \<open>C9: PutReader\<close>

text \<open>
  Claim C9. \<open>PutReader\<close> first reads the reader to completion into memory and is then
  \<open>Put\<close> on the bytes read: when reading succeeds it returns exactly what \<open>Put\<close>
  returns on those bytes, and when reading fails it returns the read error and sends
  nothing to the provider (the world is unchanged).
\<close>

theorem PutReader_refines_spec:
  "PutReader s path rd w = putFromStream_spec s path rd w
   \<and> (\<forall>bytes. ioutil_ReadAll rd = (bytes, None) \<longrightarrow> PutReader s path rd w = Put s path bytes w)
   \<and> (\<forall>bytes e. ioutil_ReadAll rd = (bytes, Some e) \<longrightarrow>
         PutReader s path rd w = (Some (External e), w))"
  by (auto simp: PutReader_def putFromStream_spec_def ioutil_ReadAll_def split: option.splits)

theorem PutReader_refines_spec_witness:
  "PutReader (storage_on missing_Bucket ''backups'') ''k'' (Reader [[1, 2], [3]] None) fresh
     = (None, \<lparr>pstate = (), calls = [CallPut ''backups/k'' [1, 2, 3] ''application/octet-stream''
                                        (ACL ''private'')]\<rparr>)
   \<and> PutReader (storage_on missing_Bucket ''backups'') ''k'' (Reader [[1, 2]] (Some access_denied)) fresh
     = (Some (External access_denied), fresh)"
proof -
  let ?s = "storage_on missing_Bucket ''backups''"
  have a: "ioutil_ReadAll (Reader [[1, 2], [3]] None) = ([1, 2, 3], None)"
    by (simp add: ioutil_ReadAll_def)
  have b: "ioutil_ReadAll (Reader [[1, 2]] (Some access_denied)) = ([1, 2], Some access_denied)"
    by (simp add: ioutil_ReadAll_def)
  have put: "Put ?s ''k'' [1, 2, 3] fresh
     = (None, \<lparr>pstate = (), calls = [CallPut ''backups/k'' [1, 2, 3] ''application/octet-stream''
                                        (ACL ''private'')]\<rparr>)"
    by (simp add: Put_def storage_on_def missing_Bucket_def const_Bucket_def addPrefix_def
          Private_def sent_def fresh_def Let_def)
  from PutReader_refines_spec[of ?s "''k''" "Reader [[1, 2], [3]] None" fresh, THEN conjunct2] a put
  have 1: "PutReader ?s ''k'' (Reader [[1, 2], [3]] None) fresh
     = (None, \<lparr>pstate = (), calls = [CallPut ''backups/k'' [1, 2, 3] ''application/octet-stream''
                                        (ACL ''private'')]\<rparr>)"
    by simp
  from PutReader_refines_spec[of ?s "''k''" "Reader [[1, 2]] (Some access_denied)" fresh, THEN conjunct2] b
  have 2: "PutReader ?s ''k'' (Reader [[1, 2]] (Some access_denied)) fresh
     = (Some (External access_denied), fresh)"
    by simp
  show ?thesis using 1 2 by simp
qed

subsection \<open>C10: a truncated page with nothing accumulated\<close>

text \<open>
  Claim C10. If during a list call a page reports truncation while the accumulated result
  is still empty (a truncated page without contents when nothing has been appended
  yet), the marker update indexes \<open>items[len(items)-1]\<close> on an empty slice and
  \<open>List\<close> panics instead of returning an error. Stated for the loop in any state
  with an empty accumulated result, and for \<open>List\<close> itself, which enters the loop in
  such a state.
\<close>

theorem List_empty_truncated_page_panics:
  assumes budget: "0 < maxSize st"
      and unfilled: "items st = []"
      and answer: "bucket_List (bucket s) pfx sep (marker st) (min (maxSize st) 1000) (pstate w)
                     = ((Some page, None), p')"
      and empty: "Contents page = []"
      and trunc: "IsTruncated page"
  shows "List_loop s pfx sep st w =
           (Panic IndexOutOfRange,
            sent (CallList pfx sep (marker st) (min (maxSize st) 1000)) p' w)
       \<and> (pfx = addPrefix s lp \<and> sep = '''' \<and> st = \<lparr>maxSize = N, marker = '''', items = []\<rparr> \<longrightarrow>
            List s lp N w =
              (Panic IndexOutOfRange, sent (CallList (addPrefix s lp) '''' '''' (min N 1000)) p' w))"
proof -
  have loop: "List_loop s pfx sep st w =
           (Panic IndexOutOfRange,
            sent (CallList pfx sep (marker st) (min (maxSize st) 1000)) p' w)"
    using unfilled empty trunc
    by (simp add: List_loop_step[OF budget] List_body_answer[OF answer])
  show ?thesis
    using loop by (auto simp: List_def)
qed

theorem List_empty_truncated_page_panics_witness:
  "List (storage_on stalling_Bucket ''backups'') ''db1/'' 10 fresh
     = (Panic IndexOutOfRange,
        \<lparr>pstate = (), calls = [CallList ''backups/db1/'' '''' '''' 10]\<rparr>)"
proof -
  let ?s = "storage_on stalling_Bucket ''backups''"
  let ?st = "\<lparr>maxSize = 10, marker = '''', items = []\<rparr>"
  let ?page = "\<lparr>Contents = [], IsTruncated = True\<rparr>"
  have budget: "0 < maxSize ?st" by simp
  have unfilled: "items ?st = []" by simp
  have answer: "bucket_List (bucket ?s) (addPrefix ?s ''db1/'') '''' (marker ?st)
                  (min (maxSize ?st) 1000) (pstate fresh) = ((Some ?page, None), ())"
    by (simp add: storage_on_def stalling_Bucket_def const_Bucket_def)
  have empty: "Contents ?page = []" by simp
  have trunc: "IsTruncated ?page" by simp
  have pre: "addPrefix ?s ''db1/'' = ''backups/db1/''"
    by (simp add: addPrefix_def storage_on_def)
  from List_empty_truncated_page_panics[OF budget unfilled answer empty trunc,
         of "''db1/''" 10]
  show ?thesis by (simp add: pre sent_def fresh_def)
qed

end
